theory Spec2Isabelle
  imports Complex_Main "HOL-Library.AList"
begin

section \<open>JavaScript values\<close>

text \<open>
  The value tree of a form holds JavaScript values. Numbers are IEEE doubles; what the
  validation engine observes of them is strict equality and truthiness, for which it
  suffices to separate \<open>NaN\<close> (unequal to itself) and the two infinities from the finite
  values. Objects that have an identity (arrays, plain objects, dates, files, blobs,
  functions) carry a reference, compared by \<open>===\<close>. A property list stands for the own
  enumerable string keys of an object, in the order of \<open>Object.keys\<close>; keys of a real
  object are distinct (see \<open>wf_val\<close>). Inherited (prototype) members, symbols, bigints
  and holes in sparse arrays are outside the model.
\<close>

type_synonym ref = nat

datatype jsnum = NaN | PosInf | NegInf | Fin rat

datatype jsval =
    JUndefined
  | JNull
  | JBool bool
  | JNum jsnum
  | JStr string
  | JDate ref jsnum
  | JFile ref string jsnum jsnum
  | JBlob ref
  | JFun ref
  | JArr ref "jsval list"
  | JObj ref "(string \<times> jsval) list"

text \<open>\<open>a === b\<close> on numbers: \<open>NaN\<close> is not equal to anything.\<close>

definition num_eq :: "jsnum \<Rightarrow> jsnum \<Rightarrow> bool" where
  "num_eq a b = (a \<noteq> NaN \<and> a = b)"

fun ref_of :: "jsval \<Rightarrow> ref option" where
  "ref_of (JDate r t) = Some r"
| "ref_of (JFile r n s m) = Some r"
| "ref_of (JBlob r) = Some r"
| "ref_of (JFun r) = Some r"
| "ref_of (JArr r xs) = Some r"
| "ref_of (JObj r ps) = Some r"
| "ref_of v = None"

text \<open>\<open>a === b\<close>: primitives by value, objects by reference.\<close>

fun strict_eq :: "jsval \<Rightarrow> jsval \<Rightarrow> bool" where
  "strict_eq JUndefined b = (b = JUndefined)"
| "strict_eq JNull b = (b = JNull)"
| "strict_eq (JBool x) b = (b = JBool x)"
| "strict_eq (JNum x) b = (case b of JNum y \<Rightarrow> num_eq x y | _ \<Rightarrow> False)"
| "strict_eq (JStr x) b = (b = JStr x)"
| "strict_eq a b = (ref_of a \<noteq> None \<and> ref_of a = ref_of b)"

datatype jstype = TUndefined | TObject | TBoolean | TNumber | TString | TFunction

fun typeof :: "jsval \<Rightarrow> jstype" where
  "typeof JUndefined = TUndefined"
| "typeof (JBool b) = TBoolean"
| "typeof (JNum n) = TNumber"
| "typeof (JStr s) = TString"
| "typeof (JFun r) = TFunction"
| "typeof v = TObject"

fun isArray :: "jsval \<Rightarrow> bool" where
  "isArray (JArr r xs) = True"
| "isArray v = False"

fun isFile :: "jsval \<Rightarrow> bool" where
  "isFile (JFile r n s m) = True"
| "isFile v = False"

fun isDate :: "jsval \<Rightarrow> bool" where
  "isDate (JDate r t) = True"
| "isDate v = False"

text \<open>Truthiness, as tested by \<open>!x\<close> and \<open>x && ...\<close>.\<close>

fun truthy :: "jsval \<Rightarrow> bool" where
  "truthy JUndefined = False"
| "truthy JNull = False"
| "truthy (JBool b) = b"
| "truthy (JNum n) = (n \<noteq> NaN \<and> n \<noteq> Fin 0)"
| "truthy (JStr s) = (s \<noteq> [])"
| "truthy v = True"

text \<open>\<open>Object.keys(v)\<close> for a value of type object: only plain objects have own keys.\<close>

fun own_props :: "jsval \<Rightarrow> (string \<times> jsval) list" where
  "own_props (JObj r ps) = ps"
| "own_props v = []"

text \<open>\<open>o[key]\<close> on a property list: the value, or \<open>undefined\<close>.\<close>

definition get_prop :: "(string \<times> jsval) list \<Rightarrow> string \<Rightarrow> jsval" where
  "get_prop ps k = (case map_of ps k of None \<Rightarrow> JUndefined | Some v \<Rightarrow> v)"

section \<open>deepEqual and deepClone (utils/helpers.ts)\<close>

text \<open>
  \<open>deepEqual\<close> follows the source branch by branch. \<open>every_index\<close> is
  \<open>a.every((item, index) => deepEqual(item, b[index]))\<close> and \<open>every_key\<close> is
  \<open>keysA.every(key => deepEqual(a[key], b[key]))\<close>, walking the properties of \<open>a\<close> in
  key order (the keys of \<open>a\<close> being distinct, \<open>a[key]\<close> is the value beside the key).
\<close>

fun elems :: "jsval \<Rightarrow> jsval list" where
  "elems (JArr r xs) = xs"
| "elems v = []"

fun getTime :: "jsval \<Rightarrow> jsnum" where
  "getTime (JDate r t) = t"
| "getTime v = NaN"

fun file_meta_eq :: "jsval \<Rightarrow> jsval \<Rightarrow> bool" where
  "file_meta_eq (JFile r n s m) (JFile r' n' s' m') = (n = n' \<and> num_eq s s' \<and> num_eq m m')"
| "file_meta_eq a b = False"

lemma size_elems: "isArray a \<Longrightarrow> size_list size (elems a) < size a"
  by (cases a) simp_all

lemma size_snd_le: "size_list (\<lambda>p. size (snd p)) ps \<le> size_list (size_prod (\<lambda>x. 0) size) ps"
  by (induction ps) auto

lemma size_own_props: "size_list (\<lambda>p. size (snd p)) (own_props a) < Suc (size a)"
proof (cases a)
  case (JObj r ps)
  then show ?thesis using size_snd_le [of ps] by simp
qed simp_all

function deepEqual :: "jsval \<Rightarrow> jsval \<Rightarrow> bool"
  and every_index :: "jsval list \<Rightarrow> jsval list \<Rightarrow> bool"
  and every_key :: "(string \<times> jsval) list \<Rightarrow> (string \<times> jsval) list \<Rightarrow> bool" where
  "deepEqual a b =
     (if strict_eq a b then True
      else if a = JNull \<or> a = JUndefined \<or> b = JNull \<or> b = JUndefined then False
      else if isFile a \<and> isFile b then file_meta_eq a b
      else if isDate a \<and> isDate b then num_eq (getTime a) (getTime b)
      else if typeof a \<noteq> typeof b then False
      else if isArray a \<and> isArray b then
        (if length (elems a) \<noteq> length (elems b) then False
         else every_index (elems a) (elems b))
      else if isArray a \<or> isArray b then False
      else if typeof a = TObject \<and> typeof b = TObject then
        (if length (own_props a) \<noteq> length (own_props b) then False
         else every_key (own_props a) (own_props b))
      else False)"
| "every_index [] ys = True"
| "every_index (x # xs) ys =
     (deepEqual x (case ys of [] \<Rightarrow> JUndefined | y # ys' \<Rightarrow> y) \<and> every_index xs (tl ys))"
| "every_key [] qs = True"
| "every_key (p # ps) qs = (deepEqual (snd p) (get_prop qs (fst p)) \<and> every_key ps qs)"
  by pat_completeness auto
termination
proof (relation "measure (\<lambda>x. case x of
          Inl (a, b) \<Rightarrow> 2 * size a + 1
        | Inr (Inl (xs, ys)) \<Rightarrow> 2 * size_list size xs
        | Inr (Inr (ps, qs)) \<Rightarrow> 2 * size_list (\<lambda>p. size (snd p)) ps)", goal_cases)
  case 1
  show ?case by simp
next
  case (2 a b)
  then show ?case using size_elems [of a] by simp
next
  case (3 a b)
  then show ?case using size_own_props [of a] by simp
qed simp_all

declare deepEqual.simps [simp del]

text \<open>
  \<open>deepClone\<close>: files and blobs are returned as they are, a date is rebuilt from its time
  value, arrays and plain objects are copied recursively. \<open>alloc\<close> gives the reference of
  each new object (the copy of the object at \<open>r\<close> lives at \<open>alloc r\<close>); nothing below
  depends on which references the runtime hands out. The copy of an object is filled by
  \<open>cloned[key] = ...\<close>: for the key \<open>__proto__\<close> that assignment runs the setter
  inherited from \<open>Object.prototype\<close> and creates no own property, so an own property of
  that name (as \<open>JSON.parse\<close> can create) is missing from the copy. Values are finite
  trees: on a cyclic object graph \<open>deepClone\<close> recurses without end, and such values are
  outside the model.
\<close>

fun deepClone :: "(ref \<Rightarrow> ref) \<Rightarrow> jsval \<Rightarrow> jsval" where
  "deepClone alloc (JDate r t) = JDate (alloc r) t"
| "deepClone alloc (JArr r xs) = JArr (alloc r) (map (deepClone alloc) xs)"
| "deepClone alloc (JObj r ps) =
     JObj (alloc r)
       (map (\<lambda>p. (fst p, deepClone alloc (snd p))) (filter (\<lambda>p. fst p \<noteq> ''__proto__'') ps))"
| "deepClone alloc v = v"

text \<open>
  Well-formed values: the keys of every object are distinct. \<open>nan_free\<close> holds of a value
  in which no number is \<open>NaN\<close> and no date is invalid (an invalid date has the time value
  \<open>NaN\<close>); the numbers stored in a file's metadata do not matter. \<open>proto_free\<close> holds of
  a value in which no object has an own property named \<open>__proto__\<close>.
\<close>

fun wf_val :: "jsval \<Rightarrow> bool" where
  "wf_val (JArr r xs) = list_all wf_val xs"
| "wf_val (JObj r ps) = (distinct (map fst ps) \<and> list_all (\<lambda>p. wf_val (snd p)) ps)"
| "wf_val v = True"

fun nan_free :: "jsval \<Rightarrow> bool" where
  "nan_free (JNum n) = (n \<noteq> NaN)"
| "nan_free (JDate r t) = (t \<noteq> NaN)"
| "nan_free (JArr r xs) = list_all nan_free xs"
| "nan_free (JObj r ps) = list_all (\<lambda>p. nan_free (snd p)) ps"
| "nan_free v = True"

fun proto_free :: "jsval \<Rightarrow> bool" where
  "proto_free (JArr r xs) = list_all proto_free xs"
| "proto_free (JObj r ps) = (''__proto__'' \<notin> set (map fst ps) \<and> list_all (\<lambda>p. proto_free (snd p)) ps)"
| "proto_free v = True"

section \<open>Field paths (utils/helpers.ts)\<close>

text \<open>\<open>n.toString()\<close> of a non-negative integer: its decimal digits.\<close>

definition digit_char :: "nat \<Rightarrow> char" where
  "digit_char d = ''0123456789'' ! d"

fun show_nat :: "nat \<Rightarrow> string" where
  "show_nat n = (if n < 10 then [digit_char n] else show_nat (n div 10) @ [digit_char (n mod 10)])"

declare show_nat.simps [simp del]

text \<open>\<open>path.split('.')\<close>: the empty string splits into one empty segment.\<close>

fun split_dot :: "string \<Rightarrow> string list" where
  "split_dot [] = [] # []"
| "split_dot (c # cs) =
     (if c = CHR ''.'' then [] # split_dot cs
      else (case split_dot cs of [] \<Rightarrow> [c] # [] | w # ws \<Rightarrow> (c # w) # ws))"

text \<open>\<open>parts.join('.')\<close>.\<close>

fun join_dot :: "string list \<Rightarrow> string" where
  "join_dot [] = []"
| "join_dot [p] = p"
| "join_dot (p # q # ps) = p @ CHR ''.'' # join_dot (q # ps)"

text \<open>\<open>xs.indexOf(x)\<close>: the first position of \<open>x\<close>, or \<open>-1\<close>.\<close>

fun indexOf :: "'a list \<Rightarrow> 'a \<Rightarrow> int" where
  "indexOf [] x = - 1"
| "indexOf (y # ys) x =
     (if y = x then 0 else (let i = indexOf ys x in if i < 0 then - 1 else i + 1))"

text \<open>\<open>xs.slice(0, e)\<close>: a negative end counts from the end of the array.\<close>

definition slice0 :: "'a list \<Rightarrow> int \<Rightarrow> 'a list" where
  "slice0 xs e = (if e < 0 then take (nat (int (length xs) + e)) xs else take (nat e) xs)"

text \<open>
  \<open>current?.[key]\<close>: member access that yields \<open>undefined\<close> on \<open>null\<close> and \<open>undefined\<close>.
  The element of an array (or the character of a string) at index \<open>i\<close> is the member whose
  key is \<open>String(i)\<close>.
\<close>

definition at_index :: "jsval list \<Rightarrow> string \<Rightarrow> jsval" where
  "at_index xs k =
     (case map_of (zip (map show_nat [0..<length xs]) xs) k of None \<Rightarrow> JUndefined | Some v \<Rightarrow> v)"

fun get_member :: "jsval \<Rightarrow> string \<Rightarrow> jsval" where
  "get_member (JObj r ps) k = get_prop ps k"
| "get_member (JArr r xs) k =
     (if k = ''length'' then JNum (Fin (of_nat (length xs))) else at_index xs k)"
| "get_member (JStr s) k =
     (if k = ''length'' then JNum (Fin (of_nat (length s)))
      else at_index (map (\<lambda>c. JStr [c]) s) k)"
| "get_member (JFile r n s m) k =
     (if k = ''name'' then JStr n else if k = ''size'' then JNum s
      else if k = ''lastModified'' then JNum m else JUndefined)"
| "get_member v k = JUndefined"

text \<open>\<open>getNestedValue(obj, path)\<close>.\<close>

definition getNestedValue :: "jsval \<Rightarrow> string \<Rightarrow> jsval" where
  "getNestedValue obj path =
     (if path = [] \<or> \<not> truthy obj then JUndefined
      else foldl get_member obj (split_dot path))"

text \<open>
  \<open>expandWildcardPaths(rules, values)\<close>. The rule collection and the result are objects
  keyed by path, held as association lists in the order of \<open>Object.entries\<close>; the
  assignment \<open>expanded[k] = ruleArray\<close> is \<open>AList.update\<close> (replace in place, or append).
  \<open>expand_path\<close> is the list of keys that one iteration of the outer loop assigns, all
  to the iteration's own \<open>ruleArray\<close>.
\<close>

definition expand_path :: "string \<Rightarrow> jsval \<Rightarrow> string list" where
  "expand_path path vals =
     (if CHR ''*'' \<in> set path then
        (let parts = split_dot path;
             wildcardIndex = indexOf parts ''*'';
             arrayPath = join_dot (slice0 parts wildcardIndex);
             array = getNestedValue vals arrayPath
         in if isArray array then
              map (\<lambda>index. join_dot (map (\<lambda>part. if part = ''*'' then show_nat index else part) parts))
                [0..<length (elems array)]
            else [])
      else [path])"

text \<open>The body of the loop over \<open>Object.entries(rules)\<close>.\<close>

definition expand_step :: "jsval \<Rightarrow> (string \<times> 'r) list \<Rightarrow> string \<times> 'r \<Rightarrow> (string \<times> 'r) list" where
  "expand_step vals expanded entry =
     (case entry of (path, ruleArray) \<Rightarrow>
        foldl (\<lambda>e k. AList.update k ruleArray e) expanded (expand_path path vals))"

definition expandWildcardPaths :: "(string \<times> 'r) list \<Rightarrow> jsval \<Rightarrow> (string \<times> 'r) list" where
  "expandWildcardPaths rules vals = foldl (expand_step vals) [] rules"

section \<open>Rules\<close>

text \<open>
  A rule is a function of the field's value and of all form values. What the engine
  observes of a call is whether it returns a plain value (\<open>null\<close>, a message, a list of
  messages: \<open>Returned\<close>, for a value without a \<open>then\<close> method), throws, or returns a
  thenable; a thenable is settled later, by the environment. A thenable is a \<open>Promise\<close>
  (\<open>result instanceof Promise\<close>) or some other object with a \<open>then\<close> method:
  \<open>validateField\<close> awaits both, \<open>isConditionallyInactive\<close> tells them apart. A rule is
  taken to answer the same arguments in the same way. What is thrown is either an
  \<open>Error\<close>, with its message, or some other value, such as the string of
  \<open>throw 'boom'\<close>. \<open>rule_id\<close> stands for the identity of the function object, and
  \<open>crossField\<close> for the \<open>dependsOn\<close> array of the optional \<open>__crossField\<close> annotation.
\<close>

datatype thrown = ErrorObj string | OtherThrown jsval

datatype thenable = NativePromise | OtherThenable

datatype outcome = Returned jsval | Threw thrown | Thenable thenable

fun is_Thenable :: "outcome \<Rightarrow> bool" where
  "is_Thenable (Thenable kind) = True"
| "is_Thenable x = False"

datatype settle = Fulfilled jsval | Rejected thrown

record rule =
  rule_id :: nat
  run :: "jsval \<Rightarrow> jsval \<Rightarrow> outcome"
  crossField :: "string list option"

text \<open>\<open>err instanceof Error ? err.message : 'Validation error'\<close>.\<close>

fun message_of :: "thrown \<Rightarrow> string" where
  "message_of (ErrorObj msg) = msg"
| "message_of (OtherThrown x) = ''Validation error''"

section \<open>The form: state shared by FormStateManager and ValidationManager\<close>

text \<open>
  \<open>createForm\<close> builds one \<open>FormStateManager\<close> and one \<open>ValidationManager\<close>; the manager
  receives the state manager's \<open>values\<close>, \<open>errors\<close> and \<open>isValidating\<close> objects, so both
  work on the same three stores. Objects keyed by path are association lists with
  \<open>AList.update\<close> for assignment and \<open>AList.delete\<close> for \<open>delete\<close>. An
  \<open>AbortController\<close> is a number; \<open>aborted\<close> holds the controllers whose signal is
  aborted. \<open>trace\<close> is a ghost field that records each call of \<open>validateField\<close> and each
  call of a rule made by it; \<open>heap_alloc\<close> supplies the references of cloned objects.
\<close>

record ValidationCache =
  snap_value :: jsval
  snap_errors :: "string list"

datatype event = Invoked string | RuleCall string nat

record form =
  form_values :: jsval
  errors :: "(string \<times> string list) list"
  isValidating :: "(string \<times> bool) list"
  touched :: "(string \<times> bool) list"
  state_rules :: "(string \<times> rule list) list"
  rules :: "(string \<times> rule list) list"
  validationCache :: "(string \<times> ValidationCache) list"
  fieldDependencies :: "(string \<times> string list) list"
  abortControllers :: "(string \<times> nat) list"
  aborted :: "nat set"
  next_controller :: nat
  expandedRulesCache :: "(string \<times> rule list) list option"
  trace :: "event list"
  heap_alloc :: "ref \<Rightarrow> ref"

section \<open>ValidationManager\<close>

text \<open>\<open>resolveValidationResult\<close>: a falsy result, or one that is neither a string nor an
  array, gives no error; an array keeps its non-empty strings.\<close>

fun nonempty_strings :: "jsval list \<Rightarrow> string list" where
  "nonempty_strings [] = []"
| "nonempty_strings (JStr s # xs) = (if length s > 0 then s # nonempty_strings xs else nonempty_strings xs)"
| "nonempty_strings (x # xs) = nonempty_strings xs"

definition resolveValidationResult :: "jsval \<Rightarrow> string list" where
  "resolveValidationResult result =
     (if \<not> truthy result then []
      else (case result of
          JStr s \<Rightarrow> [s]
        | JArr r xs \<Rightarrow> nonempty_strings xs
        | _ \<Rightarrow> []))"

definition getExpandedRules :: "form \<Rightarrow> (string \<times> rule list) list \<times> form" where
  "getExpandedRules f =
     (case expandedRulesCache f of
        None \<Rightarrow>
          (let e = expandWildcardPaths (rules f) (form_values f)
           in (e, f\<lparr>expandedRulesCache := Some e\<rparr>))
      | Some e \<Rightarrow> (e, f))"

definition invalidateExpandedRulesCache :: "form \<Rightarrow> form" where
  "invalidateExpandedRulesCache f = f\<lparr>expandedRulesCache := None\<rparr>"

text \<open>\<open>buildDependencies\<close>: per field, the de-duplicated union of the \<open>dependsOn\<close>
  arrays of its rules (\<open>[...new Set(dependsOn)]\<close> keeps first occurrences); a field
  without any is not recorded.\<close>

definition dependsOn_of :: "rule list \<Rightarrow> string list" where
  "dependsOn_of fieldRules =
     concat (map (\<lambda>rule. case crossField rule of None \<Rightarrow> [] | Some deps \<Rightarrow> deps) fieldRules)"

fun buildDependencies_loop :: "(string \<times> rule list) list \<Rightarrow> (string \<times> string list) list" where
  "buildDependencies_loop [] = []"
| "buildDependencies_loop ((fieldName, fieldRules) # entries) =
     (let dependsOn = dependsOn_of fieldRules
      in if length dependsOn > 0
         then (fieldName, rev (remdups (rev dependsOn))) # buildDependencies_loop entries
         else buildDependencies_loop entries)"

definition buildDependencies :: "form \<Rightarrow> form" where
  "buildDependencies f = f\<lparr>fieldDependencies := buildDependencies_loop (rules f)\<rparr>"

definition clearStaleErrors :: "form \<Rightarrow> form" where
  "clearStaleErrors f =
     (let (expandedRules, f1) = getExpandedRules f;
          activeFields = map fst (rules f1) @ map fst expandedRules
      in f1\<lparr>errors := filter (\<lambda>entry. fst entry \<in> set activeFields) (errors f1)\<rparr>)"

definition setRules :: "(string \<times> rule list) list \<Rightarrow> form \<Rightarrow> form" where
  "setRules r f = clearStaleErrors (buildDependencies (invalidateExpandedRulesCache (f\<lparr>rules := r\<rparr>)))"

definition getDependentFields :: "string \<Rightarrow> form \<Rightarrow> string list" where
  "getDependentFields changedField f =
     map fst (filter (\<lambda>dep. changedField \<in> set (snd dep)) (fieldDependencies f))"

subsection \<open>validateField\<close>

text \<open>
  \<open>validateField\<close> is an \<open>async\<close> function: it runs until its first \<open>await\<close> of a
  thenable and is resumed when that thenable settles. An invocation that is suspended is
  a \<open>frame\<close> holding its local variables: the field key, its own \<open>AbortController\<close>, the
  value read at the start, \<open>validatingAsync\<close>, and the rules of the chain still to run.
  The promise it returned is then pending; otherwise it is fulfilled with the error list
  (\<open>Done\<close>) or rejected (\<open>Failed\<close>).
\<close>

record frame =
  fieldKey :: string
  abortController :: nat
  currentValue :: jsval
  validatingAsync :: bool
  remaining :: "rule list"

datatype status = Done "string list" | Failed thrown | Suspended frame

text \<open>\<open>expandedRules[fieldKey] ?? this.rules[name] ?? []\<close>, on the expansion recomputed
  from the live values.\<close>

definition fieldRules_of :: "string \<Rightarrow> form \<Rightarrow> rule list" where
  "fieldRules_of key f =
     (case map_of (expandWildcardPaths (rules f) (form_values f)) key of
        Some rs \<Rightarrow> rs
      | None \<Rightarrow> (case map_of (rules f) key of Some rs \<Rightarrow> rs | None \<Rightarrow> []))"

definition currentValue_of :: "string \<Rightarrow> form \<Rightarrow> jsval" where
  "currentValue_of key f =
     (if CHR ''.'' \<in> set key then getNestedValue (form_values f) key
      else get_member (form_values f) key)"

text \<open>The exits before the \<open>try\<close> only drop the controller, if it is still the
  registered one.\<close>

definition release :: "string \<Rightarrow> nat \<Rightarrow> form \<Rightarrow> form" where
  "release key ctrl f =
     (if map_of (abortControllers f) key = Some ctrl
      then f\<lparr>abortControllers := AList.delete key (abortControllers f)\<rparr>
      else f)"

text \<open>The \<open>finally\<close> block.\<close>

definition finally_block :: "frame \<Rightarrow> form \<Rightarrow> form" where
  "finally_block fr f =
     (if map_of (abortControllers f) (fieldKey fr) = Some (abortController fr)
      then f\<lparr>isValidating := AList.update (fieldKey fr) False (isValidating f),
              abortControllers := AList.delete (fieldKey fr) (abortControllers f)\<rparr>
      else f)"

text \<open>After the loop: the cache entry and the errors are written, then \<open>finally\<close> runs.\<close>

definition commit :: "frame \<Rightarrow> string list \<Rightarrow> form \<Rightarrow> form \<times> status" where
  "commit fr fieldErrors f =
     (finally_block fr
        (f\<lparr>validationCache :=
              AList.update (fieldKey fr)
                \<lparr>snap_value = deepClone (heap_alloc f) (currentValue fr), snap_errors = fieldErrors\<rparr>
                (validationCache f),
            errors := AList.update (fieldKey fr) fieldErrors (errors f)\<rparr>),
      Done fieldErrors)"

text \<open>
  The loop over the chain, from a given rule on. A rule that throws ends in the
  \<open>catch\<close> block, which pushes the message and leaves the loop; so does a non-empty
  result. A thenable suspends the invocation, after the first one has cleared the errors
  and raised \<open>isValidating\<close>.
\<close>

fun run_chain :: "frame \<Rightarrow> rule list \<Rightarrow> form \<Rightarrow> form \<times> status" where
  "run_chain fr [] f = commit fr [] f"
| "run_chain fr (rule # rest) f =
     (let f1 = f\<lparr>trace := trace f @ [RuleCall (fieldKey fr) (rule_id rule)]\<rparr> in
      case run rule (currentValue fr) (form_values f1) of
        Threw err \<Rightarrow> commit fr [message_of err] f1
      | Returned maybePromise \<Rightarrow>
          (let resolvedErrors = resolveValidationResult maybePromise
           in if length resolvedErrors > 0 then commit fr resolvedErrors f1
              else run_chain fr rest f1)
      | Thenable kind \<Rightarrow>
          (let f2 = (if \<not> validatingAsync fr
                     then f1\<lparr>errors := AList.update (fieldKey fr) [] (errors f1),
                             isValidating := AList.update (fieldKey fr) True (isValidating f1)\<rparr>
                     else f1)
           in (f2, Suspended (fr\<lparr>validatingAsync := True, remaining := rest\<rparr>))))"

text \<open>
  Resumption after \<open>await maybePromise\<close>. A rejection is thrown at the \<open>await\<close> and
  lands in the \<open>catch\<close> block; a fulfilment is followed by the check of the abort signal.
\<close>

definition validateField_resume :: "frame \<Rightarrow> settle \<Rightarrow> form \<Rightarrow> form \<times> status" where
  "validateField_resume fr s f =
     (case s of
        Rejected err \<Rightarrow> commit fr [message_of err] f
      | Fulfilled result \<Rightarrow>
          if abortController fr \<in> aborted f then (finally_block fr f, Done [])
          else (let resolvedErrors = resolveValidationResult result
                in if length resolvedErrors > 0 then commit fr resolvedErrors f
                   else run_chain fr (remaining fr) f))"

text \<open>The head of \<open>validateField\<close>: an invocation still registered for the field is
  aborted, and a new controller is created and registered.\<close>

definition register_controller :: "string \<Rightarrow> form \<Rightarrow> nat \<times> form" where
  "register_controller key f =
     (let f1 = (case map_of (abortControllers f) key of
                  Some existingController \<Rightarrow> f\<lparr>aborted := insert existingController (aborted f)\<rparr>
                | None \<Rightarrow> f);
          ctrl = next_controller f1
      in (ctrl, f1\<lparr>next_controller := Suc ctrl,
                     abortControllers := AList.update key ctrl (abortControllers f1)\<rparr>))"

definition validateField :: "string \<Rightarrow> form \<Rightarrow> form \<times> status" where
  "validateField key f0 =
     (let (ctrl, f) = register_controller key (f0\<lparr>trace := trace f0 @ [Invoked key]\<rparr>);
          fieldRules = fieldRules_of key f;
          curValue = currentValue_of key f;
          fr = \<lparr>fieldKey = key, abortController = ctrl, currentValue = curValue,
                 validatingAsync = False, remaining = []\<rparr>
      in if length fieldRules = 0
         then (release key ctrl (f\<lparr>errors := AList.update key [] (errors f)\<rparr>), Done [])
         else (case map_of (validationCache f) key of
                 Some cached \<Rightarrow>
                   if deepEqual (snap_value cached) curValue
                   then (release key ctrl
                           (f\<lparr>errors := AList.update key (snap_errors cached) (errors f)\<rparr>),
                         Done (snap_errors cached))
                   else if ctrl \<in> aborted f then (finally_block fr f, Done [])
                   else run_chain fr fieldRules f
               | None \<Rightarrow>
                   if ctrl \<in> aborted f then (finally_block fr f, Done [])
                   else run_chain fr fieldRules f))"

text \<open>The state in which the chain starts, and the frame of the invocation.\<close>

definition registered :: "string \<Rightarrow> form \<Rightarrow> form" where
  "registered key f = snd (register_controller key (f\<lparr>trace := trace f @ [Invoked key]\<rparr>))"

definition first_frame :: "string \<Rightarrow> form \<Rightarrow> frame" where
  "first_frame key f =
     \<lparr>fieldKey = key, abortController = next_controller f, currentValue = currentValue_of key f,
      validatingAsync = False, remaining = []\<rparr>"

text \<open>
  One invocation run on its own: each settlement of the list resumes it once, until it
  is done or the list is used up (then it is still suspended).
\<close>

fun drive :: "settle list \<Rightarrow> form \<times> status \<Rightarrow> form \<times> status" where
  "drive (s # ss) (f, Suspended fr) = drive ss (validateField_resume fr s f)"
| "drive ss x = x"

subsection \<open>clearCache, clearArrayCache, dispose\<close>

text \<open>\<open>clearCache(fieldKey?)\<close>: an absent or empty key clears the whole cache.\<close>

definition startsWith :: "string \<Rightarrow> string \<Rightarrow> bool" where
  "startsWith key prefix = (take (length prefix) key = prefix)"

definition clearCache :: "string option \<Rightarrow> form \<Rightarrow> form" where
  "clearCache key_arg f =
     (case key_arg of
        None \<Rightarrow> f\<lparr>validationCache := []\<rparr>
      | Some key \<Rightarrow>
          if key = [] then f\<lparr>validationCache := []\<rparr>
          else f\<lparr>validationCache :=
                   filter (\<lambda>entry. \<not> startsWith (fst entry) (key @ ''.''))
                     (AList.delete key (validationCache f))\<rparr>)"

definition clearArrayCache :: "string \<Rightarrow> form \<Rightarrow> form" where
  "clearArrayCache arrayPath f =
     (let f1 = invalidateExpandedRulesCache f;
          keysToDelete = filter (\<lambda>key. startsWith key (arrayPath @ ''.'')) (map fst (validationCache f1))
      in f1\<lparr>validationCache := filter (\<lambda>entry. fst entry \<notin> set keysToDelete) (validationCache f1),
             errors := filter (\<lambda>entry. fst entry \<notin> set keysToDelete) (errors f1),
             aborted := aborted f1 \<union>
               set (concat (map (\<lambda>key. case map_of (abortControllers f1) key of
                                        None \<Rightarrow> [] | Some controller \<Rightarrow> [controller])
                              keysToDelete)),
             abortControllers := filter (\<lambda>entry. fst entry \<notin> set keysToDelete) (abortControllers f1)\<rparr>)"

definition dispose :: "form \<Rightarrow> form" where
  "dispose f =
     clearCache None (f\<lparr>aborted := aborted f \<union> snd ` set (abortControllers f), abortControllers := []\<rparr>)"

subsection \<open>A run of one invocation, described rule by rule\<close>

text \<open>
  In a run of one invocation on its own, the call of a rule has one awaited result: the
  value it returns or throws or, when it returns a thenable, the value or the rejection
  the thenable settles with. \<open>awaited r s\<close> is that result when \<open>s\<close> is the settlement of
  the thenable (unused when the rule answers synchronously); \<open>verdict\<close> is the error list
  the engine derives from it; a rule passes when the list is empty. \<open>settles_for\<close> picks,
  from one settlement per rule, those of the rules that return a thenable: the
  settlements the run consumes, in order.
\<close>

definition awaited :: "rule \<Rightarrow> settle \<Rightarrow> jsval \<Rightarrow> jsval \<Rightarrow> thrown + jsval" where
  "awaited r s v vs =
     (case run r v vs of
        Returned x \<Rightarrow> Inr x
      | Threw e \<Rightarrow> Inl e
      | Thenable kind \<Rightarrow> (case s of Fulfilled x \<Rightarrow> Inr x | Rejected e \<Rightarrow> Inl e))"

definition verdict :: "thrown + jsval \<Rightarrow> string list" where
  "verdict a = (case a of Inl e \<Rightarrow> [message_of e] | Inr x \<Rightarrow> resolveValidationResult x)"

definition passes :: "jsval \<Rightarrow> jsval \<Rightarrow> rule \<Rightarrow> settle \<Rightarrow> bool" where
  "passes v vs r s = (case awaited r s v vs of Inl e \<Rightarrow> False | Inr x \<Rightarrow> resolveValidationResult x = [])"

fun settles_for :: "rule list \<Rightarrow> settle list \<Rightarrow> jsval \<Rightarrow> jsval \<Rightarrow> settle list" where
  "settles_for (r # rs) (s # ss) v vs =
     (if is_Thenable (run r v vs) then s # settles_for rs ss v vs else settles_for rs ss v vs)"
| "settles_for rs ss v vs = []"

text \<open>
  What the specification says of such a run, given one settlement per rule: the rules
  are called in list order up to and including the first one that does not pass
  (\<open>calls_of\<close>), and the errors of the field are those of that rule, or none when every
  rule passes (\<open>errors_of\<close>).
\<close>

fun calls_of :: "rule list \<Rightarrow> settle list \<Rightarrow> jsval \<Rightarrow> jsval \<Rightarrow> rule list" where
  "calls_of (r # rs) (s # ss) v vs = (if passes v vs r s then r # calls_of rs ss v vs else [r])"
| "calls_of rs ss v vs = []"

fun errors_of :: "rule list \<Rightarrow> settle list \<Rightarrow> jsval \<Rightarrow> jsval \<Rightarrow> string list" where
  "errors_of (r # rs) (s # ss) v vs =
     (if passes v vs r s then errors_of rs ss v vs else verdict (awaited r s v vs))"
| "errors_of rs ss v vs = []"

text \<open>
  \<open>kept_elsewhere key f g\<close>: from \<open>f\<close> to \<open>g\<close> the errors and the cache entry of every
  field other than \<open>key\<close> are the same, and so are the rules, the values and the
  dependencies. \<open>solo_result\<close> collects what a completed run that started in \<open>f\<close> with the
  frame \<open>fr\<close> has done when it returns \<open>es\<close> after calling the rules \<open>called\<close>.
\<close>

definition kept_elsewhere :: "string \<Rightarrow> form \<Rightarrow> form \<Rightarrow> bool" where
  "kept_elsewhere key f g \<longleftrightarrow>
     (\<forall>k. k \<noteq> key \<longrightarrow>
        map_of (errors g) k = map_of (errors f) k
        \<and> map_of (validationCache g) k = map_of (validationCache f) k)
     \<and> rules g = rules f \<and> form_values g = form_values f
     \<and> fieldDependencies g = fieldDependencies f \<and> heap_alloc g = heap_alloc f"

definition solo_result :: "frame \<Rightarrow> form \<Rightarrow> string list \<Rightarrow> rule list \<Rightarrow> form \<times> status \<Rightarrow> bool" where
  "solo_result fr f es called x \<longleftrightarrow>
     snd x = Done es
     \<and> map_of (errors (fst x)) (fieldKey fr) = Some es
     \<and> map_of (validationCache (fst x)) (fieldKey fr)
         = Some \<lparr>snap_value = deepClone (heap_alloc f) (currentValue fr), snap_errors = es\<rparr>
     \<and> trace (fst x) = trace f @ map (\<lambda>q. RuleCall (fieldKey fr) (rule_id q)) called
     \<and> kept_elsewhere (fieldKey fr) f (fst x)"

text \<open>
  Controllers are created from a counter: the next one is neither registered nor
  aborted yet.
\<close>

definition fresh_controller :: "form \<Rightarrow> bool" where
  "fresh_controller f \<longleftrightarrow>
     next_controller f \<notin> aborted f \<and> next_controller f \<notin> snd ` set (abortControllers f)"

text \<open>The stored snapshot of a field does not deep-equal its current value (or there is
  none): the cache check of \<open>validateField\<close> misses.\<close>

definition cache_miss :: "string \<Rightarrow> form \<Rightarrow> bool" where
  "cache_miss key f \<longleftrightarrow>
     (case map_of (validationCache f) key of
        None \<Rightarrow> True
      | Some cached \<Rightarrow> \<not> deepEqual (snap_value cached) (currentValue_of key f))"

text \<open>What a completed invocation has committed for its field.\<close>

definition committed :: "frame \<Rightarrow> string list \<Rightarrow> form \<Rightarrow> form \<Rightarrow> bool" where
  "committed fr es f f' \<longleftrightarrow>
     map_of (errors f') (fieldKey fr) = Some es
     \<and> map_of (validationCache f') (fieldKey fr)
         = Some \<lparr>snap_value = deepClone (heap_alloc f) (currentValue fr), snap_errors = es\<rparr>
     \<and> form_values f' = form_values f \<and> aborted f' = aborted f \<and> rules f' = rules f
     \<and> heap_alloc f' = heap_alloc f \<and> touched f' = touched f"

text \<open>The promise of an invocation is not rejected.\<close>

fun not_Failed :: "status \<Rightarrow> bool" where
  "not_Failed (Failed e) = False"
| "not_Failed st = True"

section \<open>Rules of the library used in the examples\<close>

text \<open>
  \<open>required(msg)\<close> of rules/basic.ts is synchronous. \<open>remote\<close>, \<open>sameAs\<close> and
  \<open>requiredIf\<close> of rules/advanced.ts are \<open>async\<close> functions: a call always returns a
  promise, whatever the arguments; \<open>sameAs\<close> and \<open>requiredIf\<close> carry the annotation
  \<open>__crossField = { dependsOn: [fieldName] }\<close>. \<open>faulty\<close> is a user rule that throws.
\<close>

definition required :: "nat \<Rightarrow> string \<Rightarrow> rule" where
  "required i msg =
     \<lparr>rule_id = i,
      run = (\<lambda>v vs. if v = JNull \<or> v = JUndefined \<or> v = JStr [] \<or> (isArray v \<and> length (elems v) = 0)
                     then Returned (JStr (if msg = [] then ''This field is required'' else msg))
                     else Returned JNull),
      crossField = None\<rparr>"

definition remote :: "nat \<Rightarrow> rule" where
  "remote i = \<lparr>rule_id = i, run = (\<lambda>v vs. Thenable NativePromise), crossField = None\<rparr>"

definition requiredIf :: "nat \<Rightarrow> string \<Rightarrow> rule" where
  "requiredIf i conditionField =
     \<lparr>rule_id = i, run = (\<lambda>v vs. Thenable NativePromise), crossField = Some [conditionField]\<rparr>"

definition sameAs :: "nat \<Rightarrow> string \<Rightarrow> rule" where
  "sameAs i fieldName =
     \<lparr>rule_id = i, run = (\<lambda>v vs. Thenable NativePromise), crossField = Some [fieldName]\<rparr>"

definition faulty :: "nat \<Rightarrow> string \<Rightarrow> rule" where
  "faulty i msg = \<lparr>rule_id = i, run = (\<lambda>v vs. Threw (ErrorObj msg)), crossField = None\<rparr>"

text \<open>A form as \<open>createForm\<close> leaves it after \<open>setRules\<close>: nothing validated yet.\<close>

definition new_form :: "jsval \<Rightarrow> (string \<times> rule list) list \<Rightarrow> form" where
  "new_form initialValues r =
     \<lparr>form_values = initialValues, errors = [], isValidating = [], touched = [],
      state_rules = r, rules = r, validationCache = [],
      fieldDependencies = buildDependencies_loop r, abortControllers = [], aborted = {},
      next_controller = 0, expandedRulesCache = Some (expandWildcardPaths r initialValues),
      trace = [], heap_alloc = Suc\<rparr>"

text \<open>A sign-up form: the user name must be present, then free according to a remote
  check; the third rule would throw if it were ever called.\<close>

definition signup :: form where
  "signup = new_form (JObj 0 [(''username'', JStr ''bob'')])
      [(''username'', [required 1 ''Required'', remote 2, faulty 3 ''never called''])]"

text \<open>
  A roster: the list of contacts must be present, accepted by a remote check, and not the
  reserved value (a synchronous user rule); each contact needs a name, and there is a
  note. In \<open>roster\<close> the name of the first contact and the note have been validated
  already; \<open>roster_checked\<close> is the form after a first \<open>validateField('contacts')\<close> whose
  remote check answered with a message.
\<close>

definition reserved :: "nat \<Rightarrow> rule" where
  "reserved i =
     \<lparr>rule_id = i,
      run = (\<lambda>v vs. if v = JStr ''admin'' then Returned (JStr ''Reserved'') else Returned JNull),
      crossField = None\<rparr>"

definition roster_rules :: "(string \<times> rule list) list" where
  "roster_rules =
     [(''contacts'', [required 1 ''Required'', remote 2, reserved 3]),
      (''contacts.*.name'', [required 4 ''Name'']),
      (''contactsNote'', [required 5 ''Note''])]"

definition roster_start :: form where
  "roster_start = new_form
      (JObj 0 [(''contacts'', JArr 1 [JObj 2 [(''name'', JStr ''bob'')]]), (''contactsNote'', JStr ''x'')])
      roster_rules"

definition roster :: form where
  "roster = fst (drive [] (validateField ''contactsNote''
                  (fst (drive [] (validateField ''contacts.0.name'' roster_start)))))"

definition roster_checked :: form where
  "roster_checked = fst (drive [Fulfilled (JStr ''Refused'')] (validateField ''contacts'' roster))"

subsection \<open>validateForm\<close>

text \<open>
  \<open>Promise.all(allFields.map(field => this.validateField(field)))\<close>: the invocations are
  started one after the other, each running up to its first \<open>await\<close>; afterwards a
  settlement event \<open>(i, s)\<close> resumes the invocation of the \<open>i\<close>-th field, if it is
  suspended. \<open>promise_all\<close> is the state of the joined promise: rejected as soon as one
  invocation is, fulfilled when all are, pending (\<open>None\<close>) otherwise.
\<close>

fun start_all :: "string list \<Rightarrow> form \<Rightarrow> form \<times> status list" where
  "start_all [] f = (f, [])"
| "start_all (field # others) f =
     (let (f1, st) = validateField field f;
          (f2, sts) = start_all others f1
      in (f2, st # sts))"

definition resume_at :: "form \<times> status list \<Rightarrow> nat \<times> settle \<Rightarrow> form \<times> status list" where
  "resume_at x ev =
     (case x of (f, sts) \<Rightarrow> case ev of (i, s) \<Rightarrow>
        if i < length sts then
          (case sts ! i of
             Suspended fr \<Rightarrow> (let (f1, st) = validateField_resume fr s f in (f1, sts[i := st]))
           | _ \<Rightarrow> (f, sts))
        else (f, sts))"

fun rejection :: "status list \<Rightarrow> thrown option" where
  "rejection [] = None"
| "rejection (Failed e # sts) = Some e"
| "rejection (st # sts) = rejection sts"

fun is_Done :: "status \<Rightarrow> bool" where
  "is_Done (Done es) = True"
| "is_Done st = False"

definition promise_all :: "status list \<Rightarrow> (thrown + unit) option" where
  "promise_all sts =
     (case rejection sts of
        Some e \<Rightarrow> Some (Inl e)
      | None \<Rightarrow> if list_all is_Done sts then Some (Inr ()) else None)"

text \<open>
  \<open>validateForm(touched?)\<close>, run with the settlement events \<open>evs\<close>. The result is the
  \<open>touched\<close> object as the call leaves it (when one was passed), the form, and the state of
  the returned promise: \<open>None\<close> while an invocation is still pending.
\<close>

definition mark_touched :: "string list \<Rightarrow> (string \<times> bool) list \<Rightarrow> (string \<times> bool) list" where
  "mark_touched keys t = foldl (\<lambda>t field. AList.update field True t) t keys"

definition sweep_errors :: "string list \<Rightarrow> form \<Rightarrow> form" where
  "sweep_errors allFields f =
     (let activeFields = map fst (rules f) @ allFields
      in f\<lparr>errors := filter (\<lambda>entry. \<not> (CHR ''.'' \<in> set (fst entry) \<and> fst entry \<notin> set activeFields))
                        (errors f)\<rparr>)"

definition validateForm ::
  "(string \<times> bool) list option \<Rightarrow> (nat \<times> settle) list \<Rightarrow> form
     \<Rightarrow> (string \<times> bool) list option \<times> form \<times> (thrown + bool) option" where
  "validateForm touched_arg evs f =
     (let (expanded, f1) = getExpandedRules (invalidateExpandedRulesCache f);
          allFields = map fst expanded;
          touched_out = (case touched_arg of None \<Rightarrow> None
                         | Some t \<Rightarrow> Some (mark_touched allFields t));
          (f2, sts) = foldl resume_at (start_all allFields f1) evs
      in case promise_all sts of
           None \<Rightarrow> (touched_out, f2, None)
         | Some (Inl e) \<Rightarrow> (touched_out, f2, Some (Inl e))
         | Some (Inr u) \<Rightarrow>
             (let f3 = sweep_errors allFields f2
              in (touched_out, f3, Some (Inr (list_all (\<lambda>entry. length (snd entry) = 0) (errors f3))))))"

text \<open>A user rule that throws a value that is not an \<open>Error\<close> (\<open>throw x\<close>), and a form
  whose second rule of \<open>name\<close> throws the string \<open>boom\<close>.\<close>

definition throws_value :: "nat \<Rightarrow> jsval \<Rightarrow> rule" where
  "throws_value i x = \<lparr>rule_id = i, run = (\<lambda>v vs. Threw (OtherThrown x)), crossField = None\<rparr>"

definition blunt :: form where
  "blunt = new_form (JObj 0 [(''name'', JStr ''Ann'')])
      [(''name'', [required 1 ''Name'', throws_value 2 (JStr ''boom''), required 3 ''Again''])]"

subsection \<open>validateDependentFields\<close>

text \<open>
  \<open>validateDependentFields(changedField, touched)\<close>, run on its own: \<open>\<sigma>\<close> gives, for
  each dependent field, the settlements of the promises that its validation awaits;
  \<open>await nextTick()\<close> only yields. The result is the form and the state of the returned
  promise: \<open>None\<close> while the loop waits for a validation that has not settled.
\<close>

fun validateDependentFields_loop ::
  "string list \<Rightarrow> (string \<times> bool) list \<Rightarrow> (string \<Rightarrow> settle list) \<Rightarrow> form
     \<Rightarrow> form \<times> (thrown + unit) option" where
  "validateDependentFields_loop [] t \<sigma> f = (f, Some (Inr ()))"
| "validateDependentFields_loop (dependentField # others) t \<sigma> f =
     (if map_of t dependentField = Some True then
        (let f1 = f\<lparr>validationCache := AList.delete dependentField (validationCache f)\<rparr>;
             (f2, st) = drive (\<sigma> dependentField) (validateField dependentField f1)
         in case st of
              Done es \<Rightarrow> validateDependentFields_loop others t \<sigma> f2
            | Failed e \<Rightarrow> (f2, Some (Inl e))
            | Suspended fr \<Rightarrow> (f2, None))
      else validateDependentFields_loop others t \<sigma> f)"

definition validateDependentFields ::
  "string \<Rightarrow> (string \<times> bool) list \<Rightarrow> (string \<Rightarrow> settle list) \<Rightarrow> form
     \<Rightarrow> form \<times> (thrown + unit) option" where
  "validateDependentFields changedField t \<sigma> f =
     validateDependentFields_loop (getDependentFields changedField f) t \<sigma> f"

text \<open>
  What the specification says of the validation of one field \<open>d\<close> that starts from a
  cache miss, given one settlement per rule of its chain (\<open>\<tau> d\<close>): the settlements the
  run consumes, the events it adds to the trace (the call of \<open>validateField\<close>, then the
  rules up to the first that does not pass), and the errors it leaves for \<open>d\<close>.
\<close>

definition settlements :: "(string \<Rightarrow> settle list) \<Rightarrow> form \<Rightarrow> string \<Rightarrow> settle list" where
  "settlements \<tau> f d = settles_for (fieldRules_of d f) (\<tau> d) (currentValue_of d f) (form_values f)"

definition field_events :: "(string \<Rightarrow> settle list) \<Rightarrow> form \<Rightarrow> string \<Rightarrow> event list" where
  "field_events \<tau> f d =
     Invoked d # map (\<lambda>q. RuleCall d (rule_id q))
                   (calls_of (fieldRules_of d f) (\<tau> d) (currentValue_of d f) (form_values f))"

definition field_errors :: "(string \<Rightarrow> settle list) \<Rightarrow> form \<Rightarrow> string \<Rightarrow> string list" where
  "field_errors \<tau> f d = errors_of (fieldRules_of d f) (\<tau> d) (currentValue_of d f) (form_values f)"

text \<open>
  \<open>revalidated \<tau> f T x\<close>: the outcome \<open>x\<close> of a call that started in \<open>f\<close> is that of
  validating the fields \<open>T\<close> afresh, one after the other: the promise is fulfilled, the
  trace has grown by the events of these validations, each field of \<open>T\<close> carries the
  errors of its new run (and a cache entry for them), and the errors and cache entries of
  all other fields are as before.
\<close>

definition revalidated ::
  "(string \<Rightarrow> settle list) \<Rightarrow> form \<Rightarrow> string list \<Rightarrow> form \<times> (thrown + unit) option \<Rightarrow> bool" where
  "revalidated \<tau> f T x \<longleftrightarrow>
     snd x = Some (Inr ())
     \<and> trace (fst x) = trace f @ concat (map (field_events \<tau> f) T)
     \<and> (\<forall>d\<in>set T.
          map_of (errors (fst x)) d = Some (field_errors \<tau> f d)
          \<and> (fieldRules_of d f \<noteq> [] \<longrightarrow>
               map_of (validationCache (fst x)) d
                 = Some \<lparr>snap_value = deepClone (heap_alloc f) (currentValue_of d f),
                          snap_errors = field_errors \<tau> f d\<rparr>))
     \<and> (\<forall>k. k \<notin> set T \<longrightarrow>
          map_of (errors (fst x)) k = map_of (errors f) k
          \<and> map_of (validationCache (fst x)) k = map_of (validationCache f) k)
     \<and> rules (fst x) = rules f \<and> form_values (fst x) = form_values f
     \<and> heap_alloc (fst x) = heap_alloc f"

text \<open>
  A registration form: \<open>confirm\<close> and \<open>hint\<close> depend on \<open>password\<close>, and \<open>nickname\<close>
  on \<open>confirm\<close>. In \<open>registration\<close> the field \<open>confirm\<close> has been validated while both
  passwords were \<open>abc\<close>, which left a cache entry without errors; then the password
  has been changed.
\<close>

definition registration_rules :: "(string \<times> rule list) list" where
  "registration_rules =
     [(''confirm'', [required 1 ''Confirm'', sameAs 2 ''password'']),
      (''hint'', [sameAs 3 ''password'']),
      (''nickname'', [requiredIf 4 ''confirm''])]"

definition registration_start :: form where
  "registration_start = new_form
      (JObj 0 [(''password'', JStr ''abc''), (''confirm'', JStr ''abc''), (''hint'', JStr []),
               (''nickname'', JStr [])])
      registration_rules"

definition registration :: form where
  "registration =
     (fst (drive [Fulfilled JNull] (validateField ''confirm'' registration_start)))
       \<lparr>form_values :=
          JObj 0 [(''password'', JStr ''xyz''), (''confirm'', JStr ''abc''), (''hint'', JStr []),
                  (''nickname'', JStr [])]\<rparr>"

text \<open>One settlement per rule of \<open>confirm\<close>: the comparison of the passwords answers
  with its message.\<close>

definition registration_settlements :: "string \<Rightarrow> settle list" where
  "registration_settlements d = [Fulfilled JNull, Fulfilled (JStr ''Passwords differ'')]"

section \<open>FormStateManager: whole-form validity\<close>

text \<open>
  \<open>{ ...this.values }\<close>: a new object with the same properties.
\<close>

definition spread :: "(ref \<Rightarrow> ref) \<Rightarrow> jsval \<Rightarrow> jsval" where
  "spread alloc v =
     (case v of
        JObj r ps \<Rightarrow> JObj (alloc r) ps
      | JArr r xs \<Rightarrow> JObj (alloc r) (zip (map show_nat [0..<length xs]) xs)
      | _ \<Rightarrow> JObj (alloc 0) [])"

text \<open>
  The loop of \<open>isConditionallyInactive\<close> over the rules of the field: a rule with a
  \<open>dependsOn\<close> annotation is called with the empty string; \<open>null\<close> means inactive, a
  \<open>Promise\<close> or an exception means active, anything else (a thenable that is not a
  \<open>Promise\<close> included) leaves the decision to the next rule.
\<close>

fun probe_rules :: "rule list \<Rightarrow> jsval \<Rightarrow> bool" where
  "probe_rules [] testValues = False"
| "probe_rules (rule # rest) testValues =
     (case crossField rule of
        None \<Rightarrow> probe_rules rest testValues
      | Some deps \<Rightarrow>
          (case run rule (JStr []) testValues of
             Returned result \<Rightarrow> if result = JNull then True else probe_rules rest testValues
           | Thenable NativePromise \<Rightarrow> False
           | Thenable OtherThenable \<Rightarrow> probe_rules rest testValues
           | Threw e \<Rightarrow> False))"

definition isConditionallyInactive :: "string \<Rightarrow> form \<Rightarrow> bool" where
  "isConditionallyInactive key f =
     (case map_of (state_rules f) key of
        None \<Rightarrow> False
      | Some fieldRules \<Rightarrow> probe_rules fieldRules (spread (heap_alloc f) (form_values f)))"









section \<open>Scenarios\<close>

text \<open>A form whose field \<open>member\<close> holds an object with an array and a date in it.\<close>

definition ann :: jsval where
  "ann = JObj 1 [(''name'', JStr ''Ann''), (''tags'', JArr 2 [JNum (Fin 1), JDate 3 (Fin 5)])]"

definition membership :: form where
  "membership = new_form (JObj 0 [(''member'', ann)]) [(''member'', [required 1 ''Member''])]"


text \<open>
  An address book with a wildcard rule on the names of the contacts. It was set up with
  one contact, so the cached expansion holds one path; then a second contact has been
  added to the array.
\<close>

definition address_book :: form where
  "address_book =
     (new_form (JObj 0 [(''owner'', JStr ''Ann''), (''contacts'', JArr 1 [JObj 2 [(''name'', JStr [])]])])
        [(''owner'', [required 1 ''Owner'']), (''contacts.*.name'', [required 2 ''Name''])])
       \<lparr>form_values :=
          JObj 0 [(''owner'', JStr ''Ann''),
                  (''contacts'', JArr 1 [JObj 2 [(''name'', JStr [])], JObj 3 [(''name'', JStr ''Bo'')]])]\<rparr>"

text \<open>
  Two invocations for one field. \<open>resume_in\<close> resumes a suspended invocation on the form
  as it is at that moment. In the race below the user name is checked remotely:
  invocation A starts and waits for its check; the value changes and invocation B starts,
  aborting A; the check of B answers and B commits; at last the check of A fails and its
  promise is rejected.
\<close>

definition resume_in :: "settle \<Rightarrow> status \<Rightarrow> form \<Rightarrow> form \<times> status" where
  "resume_in s st f = (case st of Suspended fr \<Rightarrow> validateField_resume fr s f | _ \<Rightarrow> (f, st))"

definition lookup_form :: form where
  "lookup_form = new_form (JObj 0 [(''username'', JStr ''bob'')]) [(''username'', [remote 1])]"

definition race_A :: "form \<times> status" where
  "race_A = validateField ''username'' lookup_form"

definition race_B :: "form \<times> status" where
  "race_B = validateField ''username''
      ((fst race_A)\<lparr>form_values := JObj 0 [(''username'', JStr ''bobby'')]\<rparr>)"

definition race_B_done :: "form \<times> status" where
  "race_B_done = resume_in (Fulfilled JNull) (snd race_B) (fst race_B)"

definition race_A_late :: "form \<times> status" where
  "race_A_late = resume_in (Rejected (ErrorObj ''Network error'')) (snd race_A) (fst race_B_done)"

text \<open>A suspended invocation is superseded when its controller has been aborted.\<close>

definition superseded :: "status \<Rightarrow> form \<Rightarrow> bool" where
  "superseded st f = (case st of Suspended fr \<Rightarrow> abortController fr \<in> aborted f | _ \<Rightarrow> False)"

text \<open>The invariant behind \<open>fresh_controller\<close>: every controller that is registered or
  aborted was created before, so its number is below the counter.\<close>

definition controllers_below :: "form \<Rightarrow> bool" where
  "controllers_below f \<longleftrightarrow>
     (\<forall>c\<in>aborted f. c < next_controller f)
     \<and> (\<forall>entry\<in>set (abortControllers f). snd entry < next_controller f)"

section \<open>debounce (utils/helpers.ts)\<close>

text \<open>
  The closure returned by \<open>debounce(fn, delay)\<close> keeps \<open>timeoutId\<close> and \<open>pendingReject\<close>.
  Call number \<open>n\<close> creates promise \<open>n\<close> and timer \<open>n\<close>; \<open>pendingReject = Some n\<close> stands for
  the \<open>reject\<close> function of promise \<open>n\<close>. \<open>scheduled\<close> holds the timers that are set and
  have neither fired nor been cleared, \<open>in_flight\<close> the timer callbacks that await the
  checker, and \<open>executed\<close> records the arguments of every call of the checker. The
  environment decides when a scheduled timer fires and when and how a running checker
  settles. A promise is settled once: settling it again has no effect. A promise is
  rejected either with the \<open>AbortError\<close> of the adapter (\<open>Superseded\<close>) or with what the
  checker threw.
\<close>

datatype reject_reason = Superseded | CheckerFailed thrown

datatype promise_state = Pending | Resolved jsval | RejectedWith reject_reason

record debounced =
  timeoutId :: "nat option"
  pendingReject :: "nat option"
  promises :: "promise_state list"
  call_args :: "jsval list"
  scheduled :: "nat list"
  in_flight :: "nat list"
  executed :: "jsval list"

datatype debounce_event = Call jsval | Fire nat | Settle nat settle

definition debounce :: debounced where
  "debounce = \<lparr>timeoutId = None, pendingReject = None, promises = [], call_args = [],
               scheduled = [], in_flight = [], executed = []\<rparr>"

definition settle_promise :: "nat \<Rightarrow> promise_state \<Rightarrow> promise_state list \<Rightarrow> promise_state list" where
  "settle_promise n st ps = (if n < length ps \<and> ps ! n = Pending then ps[n := st] else ps)"

fun debounce_step :: "debounced \<Rightarrow> debounce_event \<Rightarrow> debounced" where
  "debounce_step d (Call a) =
     (let d1 = (case pendingReject d of
                  Some p \<Rightarrow> d\<lparr>promises := settle_promise p (RejectedWith Superseded) (promises d),
                               pendingReject := None\<rparr>
                | None \<Rightarrow> d);
          d2 = (case timeoutId d1 of
                  Some t \<Rightarrow> d1\<lparr>scheduled := removeAll t (scheduled d1)\<rparr>
                | None \<Rightarrow> d1);
          n = length (promises d2)
      in d2\<lparr>promises := promises d2 @ [Pending], call_args := call_args d2 @ [a],
             pendingReject := Some n, timeoutId := Some n, scheduled := scheduled d2 @ [n]\<rparr>)"
| "debounce_step d (Fire t) =
     (if t \<in> set (scheduled d) \<and> t < length (call_args d) then
        d\<lparr>scheduled := removeAll t (scheduled d), pendingReject := None,
           executed := executed d @ [call_args d ! t], in_flight := in_flight d @ [t]\<rparr>
      else d)"
| "debounce_step d (Settle t s) =
     (if t \<in> set (in_flight d) then
        d\<lparr>in_flight := removeAll t (in_flight d),
           promises := settle_promise t
               (case s of Fulfilled result \<Rightarrow> Resolved result
                        | Rejected error \<Rightarrow> RejectedWith (CheckerFailed error))
               (promises d),
           timeoutId := None\<rparr>
      else d)"

definition debounce_run :: "debounce_event list \<Rightarrow> debounced" where
  "debounce_run evs = foldl debounce_step debounce evs"

section \<open>A snapshot deep-equals the value it was taken from\<close>

lemma every_index_map:
  "(\<And>x. x \<in> set xs \<Longrightarrow> deepEqual (f x) x) \<Longrightarrow> every_index (map f xs) xs"
  by (induction xs) auto

lemma every_key_map:
  assumes "\<And>p. p \<in> set ps \<Longrightarrow> map_of qs (fst p) = Some (snd p)"
    and "\<And>p. p \<in> set ps \<Longrightarrow> deepEqual (f (snd p)) (snd p)"
  shows "every_key (map (\<lambda>p. (fst p, f (snd p))) ps) qs"
  using assms by (induction ps) (auto simp: get_prop_def)

lemma filter_proto_free:
  "''__proto__'' \<notin> set (map fst ps) \<Longrightarrow> filter (\<lambda>p. fst p \<noteq> ''__proto__'') ps = ps"
  by (induction ps) auto

text \<open>The snapshot of a well-formed value without \<open>NaN\<close>, invalid dates and \<open>__proto__\<close>
  keys deep-equals the value, whatever references the copies receive.\<close>

lemma snapshot_deepEqual:
  "wf_val v \<Longrightarrow> nan_free v \<Longrightarrow> proto_free v \<Longrightarrow> deepEqual (deepClone alloc v) v"
proof (induction v)
  case (JArr r xs)
  have "every_index (map (deepClone alloc) xs) xs"
    using JArr by (intro every_index_map) (auto simp: list_all_iff)
  then show ?case by (simp add: deepEqual.simps)
next
  case (JObj r ps)
  have keep: "filter (\<lambda>p. fst p \<noteq> ''__proto__'') ps = ps"
    using JObj.prems(3) by (intro filter_proto_free) simp
  have "every_key (map (\<lambda>p. (fst p, deepClone alloc (snd p))) ps) ps"
  proof (rule every_key_map)
    fix p assume p: "p \<in> set ps"
    then show "map_of ps (fst p) = Some (snd p)" using JObj.prems(1) by simp
    have "wf_val (snd p)" "nan_free (snd p)" "proto_free (snd p)"
      using JObj.prems p by (auto simp: list_all_iff)
    moreover have "snd p \<in> Basic_BNFs.snds p" by (cases p) simp
    ultimately show "deepEqual (deepClone alloc (snd p)) (snd p)"
      using JObj.IH p by blast
  qed
  then show ?case by (simp add: deepEqual.simps keep)
qed (simp_all add: deepEqual.simps num_eq_def)

text \<open>Each of the three conditions is needed. An array that holds \<open>NaN\<close> differs from its
  snapshot as soon as the copy is a new object; an object with an own \<open>__proto__\<close>
  property has one key more than its snapshot.\<close>

lemma snapshot_of_NaN_array: "\<not> deepEqual (deepClone Suc (JArr 0 [JNum NaN])) (JArr 0 [JNum NaN])"
  by (simp add: deepEqual.simps num_eq_def)

lemma snapshot_of_proto_key:
  "\<not> deepEqual (deepClone Suc (JObj 0 [(''__proto__'', JNum (Fin 1))]))
       (JObj 0 [(''__proto__'', JNum (Fin 1))])"
  by (simp add: deepEqual.simps)

section \<open>Wildcard expansion\<close>

lemma split_dot_nonempty: "split_dot s \<noteq> []"
  by (induction s) (auto split: list.splits)

lemma split_dot_no_dot: "p \<in> set (split_dot s) \<Longrightarrow> CHR ''.'' \<notin> set p"
  by (induction s arbitrary: p) (auto split: list.splits if_splits)

lemma split_dot_chars: "p \<in> set (split_dot s) \<Longrightarrow> c \<in> set p \<Longrightarrow> c \<in> set s"
proof (induction s arbitrary: p)
  case Nil
  then show ?case by simp
next
  case (Cons a s)
  show ?case
  proof (cases "a = CHR ''.''")
    case True
    then show ?thesis using Cons by auto
  next
    case False
    obtain w ws where sp: "split_dot s = w # ws"
      using split_dot_nonempty [of s] by (cases "split_dot s") auto
    then have "p = a # w \<or> p \<in> set ws" using Cons.prems False by simp
    then show ?thesis using Cons.IH [of w] Cons.IH [of p] Cons.prems(2) sp by auto
  qed
qed

lemma split_dot_plain: "CHR ''.'' \<notin> set p \<Longrightarrow> split_dot p = [p]"
  by (induction p) auto

lemma split_dot_append:
  "CHR ''.'' \<notin> set p \<Longrightarrow> split_dot (p @ CHR ''.'' # rest) = p # split_dot rest"
  by (induction p) (auto simp: split_dot_nonempty split: list.splits)

lemma split_join:
  "ps \<noteq> [] \<Longrightarrow> \<forall>p\<in>set ps. CHR ''.'' \<notin> set p \<Longrightarrow> split_dot (join_dot ps) = ps"
  by (induction ps rule: join_dot.induct) (auto simp: split_dot_plain split_dot_append)

lemma digit_cases: "d < 10 \<Longrightarrow> d \<in> {0, 1, 2, 3, 4, 5, 6, 7, 8, 9::nat}"
  by auto

lemma digit_char_inj: "a < 10 \<Longrightarrow> b < 10 \<Longrightarrow> digit_char a = digit_char b \<Longrightarrow> a = b"
  by (drule digit_cases, drule digit_cases) (auto simp: digit_char_def)

lemma digit_char_no_dot: "d < 10 \<Longrightarrow> digit_char d \<noteq> CHR ''.''"
  by (drule digit_cases) (auto simp: digit_char_def)

lemma show_nat_no_dot: "CHR ''.'' \<notin> set (show_nat n)"
proof (induction n rule: show_nat.induct)
  case (1 n)
  have "digit_char n \<noteq> CHR ''.''" if "n < 10" using that digit_char_no_dot by simp
  moreover have "digit_char (n mod 10) \<noteq> CHR ''.''" by (rule digit_char_no_dot) simp
  ultimately show ?case using 1 by (subst show_nat.simps) auto
qed

lemma show_nat_nonempty: "show_nat n \<noteq> []"
  by (subst show_nat.simps) simp

lemma show_nat_inj: "show_nat a = show_nat b \<Longrightarrow> a = b"
proof (induction a arbitrary: b rule: show_nat.induct)
  case (1 n)
  show ?case
  proof (cases "n < 10")
    case True
    then have n: "show_nat n = [digit_char n]" by (subst show_nat.simps) simp
    show ?thesis
    proof (cases "b < 10")
      case True
      then have "show_nat b = [digit_char b]" by (subst show_nat.simps) simp
      then show ?thesis using n "1.prems" \<open>n < 10\<close> True digit_char_inj by simp
    next
      case False
      then have "show_nat b = show_nat (b div 10) @ [digit_char (b mod 10)]"
        by (subst show_nat.simps) simp
      then show ?thesis using n "1.prems" show_nat_nonempty [of "b div 10"] by simp
    qed
  next
    case False
    then have n: "show_nat n = show_nat (n div 10) @ [digit_char (n mod 10)]"
      by (subst show_nat.simps) simp
    show ?thesis
    proof (cases "b < 10")
      case True
      then have "show_nat b = [digit_char b]" by (subst show_nat.simps) simp
      then show ?thesis using n "1.prems" show_nat_nonempty [of "n div 10"] by simp
    next
      case bF: False
      then have b: "show_nat b = show_nat (b div 10) @ [digit_char (b mod 10)]"
        by (subst show_nat.simps) simp
      from n b "1.prems" have eq: "show_nat (n div 10) = show_nat (b div 10)"
        and d: "digit_char (n mod 10) = digit_char (b mod 10)" by simp_all
      from "1.IH" [OF False eq] have "n div 10 = b div 10" .
      moreover from d have "n mod 10 = b mod 10" by (intro digit_char_inj) simp_all
      ultimately show ?thesis by (metis div_mult_mod_eq)
    qed
  qed
qed

lemma indexOf_nonneg: "x \<in> set ys \<Longrightarrow> 0 \<le> indexOf ys x"
  by (induction ys) (auto simp: Let_def)

lemma indexOf_absent: "x \<notin> set ys \<Longrightarrow> indexOf ys x = - 1"
  by (induction ys) (auto simp: Let_def)

lemma indexOf_append: "x \<notin> set pre \<Longrightarrow> indexOf (pre @ x # post) x = int (length pre)"
  by (induction pre) (auto simp: Let_def)

lemma replace_star:
  "s \<notin> set pre \<Longrightarrow> s \<notin> set post \<Longrightarrow>
   map (\<lambda>part. if part = s then t else part) (pre @ s # post) = pre @ t # post"
proof -
  assume "s \<notin> set pre" "s \<notin> set post"
  moreover have "map (\<lambda>part. if part = s then t else part) xs = xs" if "s \<notin> set xs" for xs
    using that by (induction xs) auto
  ultimately show ?thesis by simp
qed

lemma update_all_lookup:
  "map_of (foldl (\<lambda>e k. AList.update k v e) e ks) k' =
     (if k' \<in> set ks then Some v else map_of e k')"
  by (induction ks arbitrary: e) (auto simp: update_conv')

lemma update_all_keys:
  "fst ` set (foldl (\<lambda>e k. AList.update k v e) e ks) = fst ` set e \<union> set ks"
  by (induction ks arbitrary: e) (auto simp: dom_update)

lemma expand_path_wildcard:
  assumes sp: "split_dot path = pre @ ''*'' # post"
    and pre: "''*'' \<notin> set pre" and post: "''*'' \<notin> set post"
  shows "expand_path path vals =
    (if isArray (getNestedValue vals (join_dot pre))
     then map (\<lambda>k. join_dot (pre @ show_nat k # post))
            [0..<length (elems (getNestedValue vals (join_dot pre)))]
     else [])"
proof -
  have "''*'' \<in> set (split_dot path)" using sp by simp
  then have star: "CHR ''*'' \<in> set path" by (rule split_dot_chars) simp
  have idx: "indexOf (split_dot path) ''*'' = int (length pre)"
    using sp pre by (simp add: indexOf_append)
  have sl: "slice0 (split_dot path) (int (length pre)) = pre"
    using sp by (simp add: slice0_def)
  show ?thesis
    using star idx sl sp replace_star [OF pre post]
    by (simp add: expand_path_def Let_def)
qed


lemma concrete_path_inj:
  assumes sp: "split_dot path = pre @ ''*'' # post"
    and eq: "join_dot (pre @ show_nat a # post) = join_dot (pre @ show_nat b # post)"
  shows "a = b"
proof -
  have nd: "\<forall>p\<in>set (pre @ show_nat k # post). CHR ''.'' \<notin> set p" for k
  proof
    fix p assume "p \<in> set (pre @ show_nat k # post)"
    then have "p = show_nat k \<or> p \<in> set (split_dot path)" using sp by auto
    then show "CHR ''.'' \<notin> set p"
    proof
      assume "p = show_nat k"
      then show ?thesis by (simp add: show_nat_no_dot)
    next
      assume "p \<in> set (split_dot path)"
      then show ?thesis by (rule split_dot_no_dot)
    qed
  qed
  have A: "split_dot (join_dot (pre @ show_nat a # post)) = pre @ show_nat a # post"
    by (rule split_join) (simp, rule nd)
  have B: "split_dot (join_dot (pre @ show_nat b # post)) = pre @ show_nat b # post"
    by (rule split_join) (simp, rule nd)
  have "pre @ show_nat a # post = split_dot (join_dot (pre @ show_nat a # post))"
    by (rule A [symmetric])
  also have "\<dots> = split_dot (join_dot (pre @ show_nat b # post))" by (simp only: eq)
  also have "\<dots> = pre @ show_nat b # post" by (rule B)
  finally have "pre @ show_nat a # post = pre @ show_nat b # post" .
  then have "show_nat a = show_nat b" by simp
  then show ?thesis by (rule show_nat_inj)
qed

lemma concrete_paths_distinct:
  assumes "split_dot path = pre @ ''*'' # post"
  shows "distinct (map (\<lambda>k. join_dot (pre @ show_nat k # post)) [0..<n])"
proof -
  have "inj_on (\<lambda>k. join_dot (pre @ show_nat k # post)) (set [0..<n])"
    by (rule inj_onI) (rule concrete_path_inj [OF assms])
  then show ?thesis by (simp add: distinct_map)
qed

lemma expand_step_lookup:
  "map_of (expand_step vals e (path, ruleArray)) k =
     (if k \<in> set (expand_path path vals) then Some ruleArray else map_of e k)"
  by (simp add: expand_step_def update_all_lookup)

lemma expand_step_keys:
  "fst ` set (expand_step vals e (path, ruleArray)) = fst ` set e \<union> set (expand_path path vals)"
  by (simp add: expand_step_def update_all_keys)

lemma expand_fold_lookup_skip:
  "\<forall>entry\<in>set after. k \<notin> set (expand_path (fst entry) vals) \<Longrightarrow>
   map_of (foldl (expand_step vals) e after) k = map_of e k"
proof (induction after arbitrary: e)
  case Nil
  then show ?case by simp
next
  case (Cons entry after)
  obtain q rb where entry: "entry = (q, rb)" by (cases entry)
  have "map_of (foldl (expand_step vals) (expand_step vals e entry) after) k
        = map_of (expand_step vals e entry) k"
    using Cons by simp
  also have "\<dots> = map_of e k" using Cons.prems entry by (simp add: expand_step_lookup)
  finally show ?case by simp
qed

lemma expand_fold_keys:
  "fst ` set (foldl (expand_step vals) e coll)
   = fst ` set e \<union> (\<Union>entry\<in>set coll. set (expand_path (fst entry) vals))"
proof (induction coll arbitrary: e)
  case Nil
  then show ?case by simp
next
  case (Cons entry coll)
  obtain q rb where entry: "entry = (q, rb)" by (cases entry)
  show ?case using Cons [of "expand_step vals e entry"] entry
    by (simp add: expand_step_keys Un_assoc)
qed

lemma expandWildcardPaths_bound:
  assumes "k \<in> set (expand_path path vals)"
    and "\<forall>entry\<in>set after. k \<notin> set (expand_path (fst entry) vals)"
  shows "map_of (expandWildcardPaths (before @ (path, ruleArray) # after) vals) k = Some ruleArray"
  using assms
  by (simp add: expandWildcardPaths_def expand_fold_lookup_skip expand_step_lookup)

lemma expandWildcardPaths_keys:
  "fst ` set (expandWildcardPaths coll vals) =
     (\<Union>entry\<in>set coll. set (expand_path (fst entry) vals))"
  by (simp add: expandWildcardPaths_def expand_fold_keys)

lemmas path_eval =
  expandWildcardPaths_def expand_step_def expand_path_def getNestedValue_def slice0_def
  get_prop_def at_index_def show_nat.simps digit_char_def

text \<open>
  C4, as stated: a rule path without a wildcard passes through unchanged, and every path
  emitted for a wildcard rule path is mapped to that rule path's own rule array. Both
  fail. The path \<open>a*b\<close> has no wildcard segment, yet it is not passed through: the test
  of the code is whether the path contains the character \<open>*\<close>. And when a later entry
  of the collection emits a path that an earlier one has emitted, the later rule array
  replaces the earlier one: \<open>items.0.name\<close>, emitted for \<open>items.*.name\<close>, ends up mapped
  to the rule array of the entry \<open>items.0.name\<close>.
\<close>

theorem expandWildcardPaths_counterexample:
  "expandWildcardPaths [(''a*b'', 7::nat)] (JObj 0 [(''a*b'', JStr ''x'')]) = []
   \<and> expand_path ''items.*.name'' (JObj 0 [(''items'', JArr 1 [JObj 2 []])]) = [''items.0.name'']
   \<and> map_of (expandWildcardPaths [(''items.*.name'', 9), (''items.0.name'', 7::nat)]
         (JObj 0 [(''items'', JArr 1 [JObj 2 []])])) ''items.0.name'' = Some 7"
  by (simp add: path_eval)

text \<open>
  C4, amended. Take any entry \<open>(path, ruleArray)\<close> of the rule collection. If \<open>path\<close> has
  one wildcard segment, between the segments \<open>pre\<close> and \<open>post\<close>, and the prefix resolves
  to an array of length \<open>N\<close>, the entry emits exactly the \<open>N\<close> distinct paths with the
  wildcard replaced by \<open>0..N-1\<close> (none when \<open>N = 0\<close>); when the prefix does not resolve
  to an array it emits nothing; a path that contains no \<open>*\<close> character is emitted
  unchanged. In the output every emitted path is mapped to the rule array of the last
  entry of the collection that emits it (the entry's own \<open>ruleArray\<close> when no later
  entry emits the path), and the output has no other keys than the emitted ones.
\<close>

theorem expandWildcardPaths_wildcard:
  assumes coll: "coll = before @ (path, ruleArray) # after"
  shows "(\<forall>pre post. split_dot path = pre @ ''*'' # post \<and> ''*'' \<notin> set pre \<and> ''*'' \<notin> set post \<longrightarrow>
            (\<forall>r xs. getNestedValue vals (join_dot pre) = JArr r xs \<longrightarrow>
               expand_path path vals
                 = map (\<lambda>k. join_dot (pre @ show_nat k # post)) [0..<length xs]
               \<and> distinct (expand_path path vals)
               \<and> length (expand_path path vals) = length xs)
            \<and> (\<not> isArray (getNestedValue vals (join_dot pre)) \<longrightarrow> expand_path path vals = []))
       \<and> (CHR ''*'' \<notin> set path \<longrightarrow> expand_path path vals = [path])
       \<and> (\<forall>k\<in>set (expand_path path vals).
            (\<forall>entry\<in>set after. k \<notin> set (expand_path (fst entry) vals)) \<longrightarrow>
            map_of (expandWildcardPaths coll vals) k = Some ruleArray)
       \<and> fst ` set (expandWildcardPaths coll vals)
           = (\<Union>entry\<in>set coll. set (expand_path (fst entry) vals))"
proof (intro conjI allI impI ballI)
  fix pre post r xs
  assume sp: "split_dot path = pre @ ''*'' # post \<and> ''*'' \<notin> set pre \<and> ''*'' \<notin> set post"
    and arr: "getNestedValue vals (join_dot pre) = JArr r xs"
  then show e: "expand_path path vals
      = map (\<lambda>k. join_dot (pre @ show_nat k # post)) [0..<length xs]"
    by (simp add: expand_path_wildcard)
  from sp have "split_dot path = pre @ ''*'' # post" by (rule conjunct1)
  then have "distinct (map (\<lambda>k. join_dot (pre @ show_nat k # post)) [0..<length xs])"
    by (rule concrete_paths_distinct)
  then show "distinct (expand_path path vals)"
    by (simp only: e)
  show "length (expand_path path vals) = length xs"
    unfolding e by simp
next
  fix pre post
  assume "split_dot path = pre @ ''*'' # post \<and> ''*'' \<notin> set pre \<and> ''*'' \<notin> set post"
    and "\<not> isArray (getNestedValue vals (join_dot pre))"
  then show "expand_path path vals = []"
    by (simp add: expand_path_wildcard)
next
  assume "CHR ''*'' \<notin> set path"
  then show "expand_path path vals = [path]"
    by (simp add: expand_path_def)
next
  fix k
  assume "k \<in> set (expand_path path vals)"
    and "\<forall>entry\<in>set after. k \<notin> set (expand_path (fst entry) vals)"
  then show "map_of (expandWildcardPaths coll vals) k = Some ruleArray"
    unfolding coll by (rule expandWildcardPaths_bound)
next
  show "fst ` set (expandWildcardPaths coll vals)
      = (\<Union>entry\<in>set coll. set (expand_path (fst entry) vals))"
    by (rule expandWildcardPaths_keys)
qed

theorem expandWildcardPaths_wildcard_witness:
  "split_dot ''items.*.name'' = [''items''] @ ''*'' # [''name'']
   \<and> getNestedValue (JObj 0 [(''items'', JArr 1 [JObj 2 [], JObj 3 []])]) (join_dot [''items''])
       = JArr 1 [JObj 2 [], JObj 3 []]
   \<and> CHR ''*'' \<notin> set ''items.0.name''
   \<and> expand_path ''items.*.name'' (JObj 0 [(''items'', JArr 1 [JObj 2 [], JObj 3 []])])
       = [''items.0.name'', ''items.1.name'']
   \<and> expand_path ''items.0.name'' (JObj 0 [(''items'', JArr 1 [JObj 2 [], JObj 3 []])])
       = [''items.0.name'']
   \<and> map_of (expandWildcardPaths [(''title'', 5), (''items.*.name'', 9), (''items.0.name'', 7::nat)]
         (JObj 0 [(''items'', JArr 1 [JObj 2 [], JObj 3 []])])) ''items.1.name'' = Some 9
   \<and> map_of (expandWildcardPaths [(''title'', 5), (''items.*.name'', 9), (''items.0.name'', 7::nat)]
         (JObj 0 [(''items'', JArr 1 [JObj 2 [], JObj 3 []])])) ''items.0.name'' = Some 7
   \<and> fst ` set (expandWildcardPaths [(''title'', 5), (''items.*.name'', 9), (''items.0.name'', 7::nat)]
         (JObj 0 [(''items'', JArr 1 [JObj 2 [], JObj 3 []])]))
       = {''title'', ''items.0.name'', ''items.1.name''}"
proof -
  let ?vals = "JObj 0 [(''items'', JArr 1 [JObj 2 [], JObj 3 []])]"
  let ?coll = "[(''title'', 5), (''items.*.name'', 9), (''items.0.name'', 7::nat)]"
  have c1: "?coll = [(''title'', 5)] @ (''items.*.name'', 9) # [(''items.0.name'', 7)]" by simp
  have c2: "?coll = [(''title'', 5), (''items.*.name'', 9)] @ (''items.0.name'', 7) # []" by simp
  note wild = expandWildcardPaths_wildcard [OF c1, of ?vals]
  note plain = expandWildcardPaths_wildcard [OF c2, of ?vals]
  have 1: "split_dot ''items.*.name'' = [''items''] @ ''*'' # [''name'']" by simp
  have 2: "getNestedValue ?vals (join_dot [''items'']) = JArr 1 [JObj 2 [], JObj 3 []]"
    by (simp add: path_eval)
  have 3: "CHR ''*'' \<notin> set ''items.0.name''" by simp
  have e1: "expand_path ''items.*.name'' ?vals
      = map (\<lambda>k. join_dot ([''items''] @ show_nat k # [''name''])) [0..<length [JObj 2 [], JObj 3 []]]"
  proof -
    have "split_dot ''items.*.name'' = [''items''] @ ''*'' # [''name'']
        \<and> ''*'' \<notin> set [''items''] \<and> ''*'' \<notin> set [''name'']"
      by simp
    then show ?thesis
      using wild [THEN conjunct1] 2 by blast
  qed
  then have e1': "expand_path ''items.*.name'' ?vals = [''items.0.name'', ''items.1.name'']"
    by (simp add: upt_rec show_nat.simps digit_char_def)
  have e2: "expand_path ''items.0.name'' ?vals = [''items.0.name'']"
    using plain [THEN conjunct2, THEN conjunct1] 3 by blast
  have "''items.1.name'' \<in> set (expand_path ''items.*.name'' ?vals)" unfolding e1' by simp
  moreover have "\<forall>entry\<in>set [(''items.0.name'', 7::nat)].
      ''items.1.name'' \<notin> set (expand_path (fst entry) ?vals)"
    unfolding list.set ball_simps fst_conv e2 by simp
  ultimately have b1: "map_of (expandWildcardPaths ?coll ?vals) ''items.1.name'' = Some 9"
    using wild [THEN conjunct2, THEN conjunct2, THEN conjunct1] by blast
  have "''items.0.name'' \<in> set (expand_path ''items.0.name'' ?vals)" unfolding e2 by simp
  then have b2: "map_of (expandWildcardPaths ?coll ?vals) ''items.0.name'' = Some 7"
    using plain [THEN conjunct2, THEN conjunct2, THEN conjunct1] by simp
  have e3: "expand_path ''title'' ?vals = [''title'']" by (simp add: expand_path_def)
  have keys: "fst ` set (expandWildcardPaths ?coll ?vals)
      = {''title'', ''items.0.name'', ''items.1.name''}"
    unfolding wild [THEN conjunct2, THEN conjunct2, THEN conjunct2]
    unfolding list.set UN_insert UN_empty fst_conv e1' e2 e3 by auto
  show ?thesis using 1 2 3 e1' e2 b1 b2 keys by simp
qed

section \<open>Runs of the rule chain\<close>

lemma finally_block_fields [simp]:
  "errors (finally_block fr f) = errors f"
  "validationCache (finally_block fr f) = validationCache f"
  "form_values (finally_block fr f) = form_values f"
  "aborted (finally_block fr f) = aborted f"
  "rules (finally_block fr f) = rules f"
  "trace (finally_block fr f) = trace f"
  "heap_alloc (finally_block fr f) = heap_alloc f"
  "touched (finally_block fr f) = touched f"
  "state_rules (finally_block fr f) = state_rules f"
  "next_controller (finally_block fr f) = next_controller f"
  "fieldDependencies (finally_block fr f) = fieldDependencies f"
  by (simp_all add: finally_block_def)

lemma release_fields [simp]:
  "errors (release key c f) = errors f"
  "validationCache (release key c f) = validationCache f"
  "form_values (release key c f) = form_values f"
  "rules (release key c f) = rules f"
  "trace (release key c f) = trace f"
  "touched (release key c f) = touched f"
  "aborted (release key c f) = aborted f"
  "fieldDependencies (release key c f) = fieldDependencies f"
  "state_rules (release key c f) = state_rules f"
  "next_controller (release key c f) = next_controller f"
  "heap_alloc (release key c f) = heap_alloc f"
  by (simp_all add: release_def)

lemma commit_fields [simp]:
  "snd (commit fr es f) = Done es"
  "errors (fst (commit fr es f)) = AList.update (fieldKey fr) es (errors f)"
  "validationCache (fst (commit fr es f)) =
     AList.update (fieldKey fr)
       \<lparr>snap_value = deepClone (heap_alloc f) (currentValue fr), snap_errors = es\<rparr> (validationCache f)"
  "form_values (fst (commit fr es f)) = form_values f"
  "aborted (fst (commit fr es f)) = aborted f"
  "rules (fst (commit fr es f)) = rules f"
  "trace (fst (commit fr es f)) = trace f"
  "heap_alloc (fst (commit fr es f)) = heap_alloc f"
  "touched (fst (commit fr es f)) = touched f"
  "state_rules (fst (commit fr es f)) = state_rules f"
  "next_controller (fst (commit fr es f)) = next_controller f"
  "fieldDependencies (fst (commit fr es f)) = fieldDependencies f"
  by (simp_all add: commit_def)

lemma commit_committed:
  "commit fr es f = (f', st) \<Longrightarrow> st = Done es \<and> committed fr es f f' \<and> trace f' = trace f"
proof -
  assume a: "commit fr es f = (f', st)"
  then have "f' = fst (commit fr es f)" "st = snd (commit fr es f)" by simp_all
  then show ?thesis by (simp add: committed_def update_conv')
qed

lemma chain_stops:
  assumes "list_all2 (passes v vs) pre sa"
    and "verdict (awaited r s v vs) = es" and "es \<noteq> []"
    and "abortController fr \<notin> aborted f" and "form_values f = vs" and "currentValue fr = v"
  shows "\<exists>f'. drive (settles_for (pre @ [r]) (sa @ [s]) v vs) (run_chain fr (pre @ r # post) f)
               = (f', Done es)
            \<and> map_of (errors f') (fieldKey fr) = Some es
            \<and> map_of (validationCache f') (fieldKey fr)
                = Some \<lparr>snap_value = deepClone (heap_alloc f) v, snap_errors = es\<rparr>
            \<and> trace f' = trace f @ map (\<lambda>q. RuleCall (fieldKey fr) (rule_id q)) (pre @ [r])"
  using assms
proof (induction pre sa arbitrary: f fr rule: list_all2_induct)
  case Nil
  let ?f1 = "f\<lparr>trace := trace f @ [RuleCall (fieldKey fr) (rule_id r)]\<rparr>"
  show ?case
  proof (cases "run r v vs")
    case (Returned x)
    then have "resolveValidationResult x = es" using Nil by (simp add: awaited_def verdict_def)
    then show ?thesis using Returned Nil
      by (simp add: Let_def commit_def update_conv')
  next
    case (Threw e)
    then have "es = [message_of e]" using Nil by (simp add: awaited_def verdict_def)
    then show ?thesis using Threw Nil
      by (simp add: Let_def commit_def update_conv')
  next
    case (Thenable kind)
    show ?thesis
    proof (cases s)
      case (Fulfilled x)
      then have "resolveValidationResult x = es" using Nil Thenable by (simp add: awaited_def verdict_def)
      then show ?thesis using Thenable Fulfilled Nil
        by (simp add: Let_def validateField_resume_def commit_def update_conv')
    next
      case (Rejected e)
      then have "es = [message_of e]" using Nil Thenable by (simp add: awaited_def verdict_def)
      then show ?thesis using Thenable Rejected Nil
        by (simp add: Let_def validateField_resume_def commit_def update_conv')
    qed
  qed
next
  case (Cons q pre s0 sa)
  let ?k = "fieldKey fr"
  let ?f1 = "f\<lparr>trace := trace f @ [RuleCall ?k (rule_id q)]\<rparr>"
  show ?case
  proof (cases "run q v vs")
    case (Returned x)
    then have px: "resolveValidationResult x = []" using Cons.hyps(1) by (simp add: passes_def awaited_def)
    have step: "run_chain fr ((q # pre) @ r # post) f = run_chain fr (pre @ r # post) ?f1"
      using Returned px Cons.prems by (simp add: Let_def)
    obtain f' where "drive (settles_for (pre @ [r]) (sa @ [s]) v vs) (run_chain fr (pre @ r # post) ?f1)
               = (f', Done es)
            \<and> map_of (errors f') ?k = Some es
            \<and> map_of (validationCache f') ?k
                = Some \<lparr>snap_value = deepClone (heap_alloc ?f1) v, snap_errors = es\<rparr>
            \<and> trace f' = trace ?f1 @ map (\<lambda>q. RuleCall ?k (rule_id q)) (pre @ [r])"
      using Cons.IH [of fr ?f1] Cons.prems by auto
    then show ?thesis using step Returned by (intro exI [of _ f']) simp
  next
    case (Threw e)
    then show ?thesis using Cons.hyps(1) by (simp add: passes_def awaited_def)
  next
    case (Thenable kind)
    then obtain x where s0: "s0 = Fulfilled x" and px: "resolveValidationResult x = []"
      using Cons.hyps(1) by (cases s0) (simp_all add: passes_def awaited_def)
    define f2 where "f2 =
              (if \<not> validatingAsync fr
               then ?f1\<lparr>errors := AList.update ?k [] (errors ?f1),
                        isValidating := AList.update ?k True (isValidating ?f1)\<rparr>
               else ?f1)"
    define fr' where "fr' = fr\<lparr>validatingAsync := True, remaining := pre @ r # post\<rparr>"
    have f2: "form_values f2 = vs" "aborted f2 = aborted f" "heap_alloc f2 = heap_alloc f"
      "trace f2 = trace f @ [RuleCall ?k (rule_id q)]"
      using Cons.prems by (simp_all add: f2_def)
    have fr': "fieldKey fr' = ?k" "abortController fr' = abortController fr"
      "currentValue fr' = v" "remaining fr' = pre @ r # post"
      using Cons.prems by (simp_all add: fr'_def)
    have susp: "run_chain fr ((q # pre) @ r # post) f = (f2, Suspended fr')"
      using Thenable Cons.prems by (simp add: Let_def f2_def fr'_def)
    have res: "validateField_resume fr' s0 f2 = run_chain fr' (pre @ r # post) f2"
      using s0 px Cons.prems f2 fr' by (simp add: validateField_resume_def)
    have "\<exists>f'. drive (settles_for (pre @ [r]) (sa @ [s]) v vs) (run_chain fr' (pre @ r # post) f2)
               = (f', Done es)
            \<and> map_of (errors f') (fieldKey fr') = Some es
            \<and> map_of (validationCache f') (fieldKey fr')
                = Some \<lparr>snap_value = deepClone (heap_alloc f2) v, snap_errors = es\<rparr>
            \<and> trace f' = trace f2 @ map (\<lambda>q. RuleCall (fieldKey fr') (rule_id q)) (pre @ [r])"
      by (rule Cons.IH) (use Cons.prems f2 fr' in simp_all)
    then obtain f' where "drive (settles_for (pre @ [r]) (sa @ [s]) v vs) (run_chain fr' (pre @ r # post) f2)
               = (f', Done es)"
        "map_of (errors f') ?k = Some es"
        "map_of (validationCache f') ?k
                = Some \<lparr>snap_value = deepClone (heap_alloc f) v, snap_errors = es\<rparr>"
        "trace f' = trace f @ map (\<lambda>q. RuleCall ?k (rule_id q)) ((q # pre) @ [r])"
      using f2 fr' by auto
    then show ?thesis using susp res Thenable by (intro exI [of _ f']) simp
  qed
qed

lemma register_controller_fst [simp]: "fst (register_controller key f) = next_controller f"
  by (simp add: register_controller_def Let_def split: option.splits)

lemma register_controller_fields [simp]:
  "form_values (snd (register_controller key f)) = form_values f"
  "rules (snd (register_controller key f)) = rules f"
  "errors (snd (register_controller key f)) = errors f"
  "validationCache (snd (register_controller key f)) = validationCache f"
  "heap_alloc (snd (register_controller key f)) = heap_alloc f"
  "touched (snd (register_controller key f)) = touched f"
  "state_rules (snd (register_controller key f)) = state_rules f"
  "fieldDependencies (snd (register_controller key f)) = fieldDependencies f"
  "trace (snd (register_controller key f)) = trace f"
  "next_controller (snd (register_controller key f)) = Suc (next_controller f)"
  "abortControllers (snd (register_controller key f))
     = AList.update key (next_controller f) (abortControllers f)"
  "aborted (snd (register_controller key f))
     = (case map_of (abortControllers f) key of
          None \<Rightarrow> aborted f | Some c \<Rightarrow> insert c (aborted f))"
  by (simp_all add: register_controller_def Let_def split: option.splits)

lemma fieldRules_of_cong:
  "rules f' = rules f \<Longrightarrow> form_values f' = form_values f \<Longrightarrow> fieldRules_of k f' = fieldRules_of k f"
  by (simp add: fieldRules_of_def split: option.splits)

lemma currentValue_of_cong:
  "form_values f' = form_values f \<Longrightarrow> currentValue_of k f' = currentValue_of k f"
  by (simp add: currentValue_of_def)

lemma registered_fields [simp]:
  "form_values (registered key f) = form_values f"
  "rules (registered key f) = rules f"
  "errors (registered key f) = errors f"
  "validationCache (registered key f) = validationCache f"
  "heap_alloc (registered key f) = heap_alloc f"
  "touched (registered key f) = touched f"
  "state_rules (registered key f) = state_rules f"
  "fieldDependencies (registered key f) = fieldDependencies f"
  "trace (registered key f) = trace f @ [Invoked key]"
  "next_controller (registered key f) = Suc (next_controller f)"
  by (simp_all add: registered_def)

lemma registered_derived [simp]:
  "fieldRules_of k (registered key f) = fieldRules_of k f"
  "currentValue_of k (registered key f) = currentValue_of k f"
  by (rule fieldRules_of_cong, simp, simp) (rule currentValue_of_cong, simp)

lemma registered_not_aborted:
  assumes "fresh_controller f"
  shows "next_controller f \<notin> aborted (registered key f)"
proof (cases "map_of (abortControllers f) key")
  case None
  then show ?thesis using assms
    by (simp add: registered_def fresh_controller_def)
next
  case (Some c)
  then have "(key, c) \<in> set (abortControllers f)" by (rule map_of_SomeD)
  then have "snd (key, c) \<in> snd ` set (abortControllers f)" by (rule imageI)
  then have "c \<in> snd ` set (abortControllers f)" by simp
  moreover have "next_controller f \<notin> snd ` set (abortControllers f)"
    using assms by (simp add: fresh_controller_def)
  ultimately have "c \<noteq> next_controller f" by blast
  then show ?thesis using assms Some
    by (simp add: registered_def fresh_controller_def)
qed


lemma validateField_unfold:
  "validateField key f =
     (if fieldRules_of key f = []
      then (release key (next_controller f)
              ((registered key f)\<lparr>errors := AList.update key [] (errors f)\<rparr>), Done [])
      else if \<not> cache_miss key f
      then (release key (next_controller f)
              ((registered key f)\<lparr>errors :=
                  AList.update key (snap_errors (the (map_of (validationCache f) key))) (errors f)\<rparr>),
            Done (snap_errors (the (map_of (validationCache f) key))))
      else if next_controller f \<in> aborted (registered key f)
      then (finally_block (first_frame key f) (registered key f), Done [])
      else run_chain (first_frame key f) (fieldRules_of key f) (registered key f))"
proof -
  obtain ctrl g where rc: "register_controller key (f\<lparr>trace := trace f @ [Invoked key]\<rparr>) = (ctrl, g)"
    by (cases "register_controller key (f\<lparr>trace := trace f @ [Invoked key]\<rparr>)")
  have ctrl: "ctrl = next_controller f"
    using register_controller_fst [of key "f\<lparr>trace := trace f @ [Invoked key]\<rparr>"] rc by simp
  have g: "g = registered key f" using rc by (simp add: registered_def)
  show ?thesis
  proof (cases "map_of (validationCache f) key")
    case None
    then show ?thesis
      unfolding validateField_def rc
      by (simp add: ctrl g Let_def cache_miss_def first_frame_def)
  next
    case (Some cached)
    then show ?thesis
      unfolding validateField_def rc
      by (simp add: ctrl g Let_def cache_miss_def first_frame_def)
  qed
qed

lemma validateField_miss:
  assumes "fieldRules_of key f \<noteq> []" and "cache_miss key f" and "fresh_controller f"
  shows "validateField key f = run_chain (first_frame key f) (fieldRules_of key f) (registered key f)"
  using assms registered_not_aborted [of f key] by (simp add: validateField_unfold)

lemma first_frame_fields [simp]:
  "fieldKey (first_frame key f) = key"
  "abortController (first_frame key f) = next_controller f"
  "currentValue (first_frame key f) = currentValue_of key f"
  by (simp_all add: first_frame_def)

lemma validateField_decisive:
  assumes chain: "fieldRules_of p f = pre @ r # post"
    and miss: "cache_miss p f" and fresh: "fresh_controller f"
    and pass: "list_all2 (passes (currentValue_of p f) (form_values f)) pre sa"
    and es: "verdict (awaited r s (currentValue_of p f) (form_values f)) = es" "es \<noteq> []"
  shows "snd (drive (settles_for (pre @ [r]) (sa @ [s]) (currentValue_of p f) (form_values f))
                (validateField p f)) = Done es
       \<and> map_of (errors (fst (drive (settles_for (pre @ [r]) (sa @ [s]) (currentValue_of p f) (form_values f))
                (validateField p f)))) p = Some es
       \<and> map_of (validationCache (fst (drive (settles_for (pre @ [r]) (sa @ [s]) (currentValue_of p f) (form_values f))
                (validateField p f)))) p
           = Some \<lparr>snap_value = deepClone (heap_alloc f) (currentValue_of p f), snap_errors = es\<rparr>
       \<and> trace (fst (drive (settles_for (pre @ [r]) (sa @ [s]) (currentValue_of p f) (form_values f))
                (validateField p f)))
           = trace f @ Invoked p # map (\<lambda>q. RuleCall p (rule_id q)) (pre @ [r])"
proof -
  let ?v = "currentValue_of p f" and ?vs = "form_values f"
  have vf: "validateField p f = run_chain (first_frame p f) (pre @ r # post) (registered p f)"
    using chain miss fresh validateField_miss [of p f] by simp
  have "\<exists>f'. drive (settles_for (pre @ [r]) (sa @ [s]) ?v ?vs)
                 (run_chain (first_frame p f) (pre @ r # post) (registered p f)) = (f', Done es)
            \<and> map_of (errors f') (fieldKey (first_frame p f)) = Some es
            \<and> map_of (validationCache f') (fieldKey (first_frame p f))
                = Some \<lparr>snap_value = deepClone (heap_alloc (registered p f)) ?v, snap_errors = es\<rparr>
            \<and> trace f' = trace (registered p f)
                 @ map (\<lambda>q. RuleCall (fieldKey (first_frame p f)) (rule_id q)) (pre @ [r])"
    using pass es registered_not_aborted [OF fresh, of p]
    by (intro chain_stops) simp_all
  then show ?thesis unfolding vf by auto
qed

lemmas form_eval =
  new_form_def fieldRules_of_def currentValue_of_def cache_miss_def fresh_controller_def
  required_def remote_def faulty_def requiredIf_def awaited_def passes_def verdict_def
  resolveValidationResult_def

lemmas run_eval =
  validateField_def register_controller_def release_def finally_block_def commit_def
  validateField_resume_def Let_def

lemmas form_run_eval =
  validateForm_def getExpandedRules_def invalidateExpandedRulesCache_def promise_all_def
  sweep_errors_def mark_touched_def resume_at_def

lemma drive_Done [simp]: "drive ss (g, Done es) = (g, Done es)"
  by (cases ss) simp_all

lemma committed_transfer:
  assumes "committed fr' es g f'"
    and "fieldKey fr' = fieldKey fr" "currentValue fr' = currentValue fr"
    and "heap_alloc g = heap_alloc f" "form_values g = form_values f" "aborted g = aborted f"
    and "rules g = rules f" "touched g = touched f"
  shows "committed fr es f f'"
  using assms by (simp add: committed_def)

lemma commit_drive_committed:
  "drive ss (commit fr es0 f) = (f', Done es) \<Longrightarrow> committed fr es f f'"
  using commit_committed [of fr es0 f] by (cases "commit fr es0 f") auto

lemma run_done_committed:
  "drive ss (run_chain fr rs f) = (f', Done es) \<Longrightarrow> abortController fr \<notin> aborted f
   \<Longrightarrow> committed fr es f f'"
proof (induction rs arbitrary: ss f fr)
  case Nil
  then show ?case by (simp add: commit_drive_committed)
next
  case (Cons rule rest)
  let ?k = "fieldKey fr"
  define f1 where "f1 = f\<lparr>trace := trace f @ [RuleCall ?k (rule_id rule)]\<rparr>"
  have f1: "heap_alloc f1 = heap_alloc f" "form_values f1 = form_values f" "aborted f1 = aborted f"
    "rules f1 = rules f" "touched f1 = touched f"
    by (simp_all add: f1_def)
  show ?case
  proof (cases "run rule (currentValue fr) (form_values f)")
    case (Threw e)
    then have "drive ss (commit fr [message_of e] f1) = (f', Done es)"
      using Cons.prems(1) by (simp add: Let_def f1_def)
    then have "committed fr es f1 f'" by (rule commit_drive_committed)
    then show ?thesis using f1 committed_transfer [of fr es f1 f' fr f] by simp
  next
    case (Returned x)
    show ?thesis
    proof (cases "resolveValidationResult x = []")
      case True
      then have "drive ss (run_chain fr rest f1) = (f', Done es)"
        using Cons.prems(1) Returned by (simp add: Let_def f1_def)
      then have "committed fr es f1 f'" using Cons.prems(2) f1 by (intro Cons.IH) simp_all
      then show ?thesis using f1 committed_transfer [of fr es f1 f' fr f] by simp
    next
      case False
      then have "drive ss (commit fr (resolveValidationResult x) f1) = (f', Done es)"
        using Cons.prems(1) Returned by (simp add: Let_def f1_def)
      then have "committed fr es f1 f'" by (rule commit_drive_committed)
      then show ?thesis using f1 committed_transfer [of fr es f1 f' fr f] by simp
    qed
  next
    case (Thenable kind)
    define f2 where "f2 =
              (if \<not> validatingAsync fr
               then f1\<lparr>errors := AList.update ?k [] (errors f1),
                        isValidating := AList.update ?k True (isValidating f1)\<rparr>
               else f1)"
    define fr' where "fr' = fr\<lparr>validatingAsync := True, remaining := rest\<rparr>"
    have f2: "heap_alloc f2 = heap_alloc f" "form_values f2 = form_values f" "aborted f2 = aborted f"
      "rules f2 = rules f" "touched f2 = touched f"
      using f1 by (simp_all add: f2_def)
    have fr': "fieldKey fr' = ?k" "abortController fr' = abortController fr"
      "currentValue fr' = currentValue fr" "remaining fr' = rest"
      by (simp_all add: fr'_def)
    have susp: "run_chain fr (rule # rest) f = (f2, Suspended fr')"
      using Thenable by (simp add: Let_def f1_def f2_def fr'_def)
    show ?thesis
    proof (cases ss)
      case Nil
      then show ?thesis using Cons.prems(1) susp by simp
    next
      case (Cons s ss')
      then have d: "drive ss' (validateField_resume fr' s f2) = (f', Done es)"
        using Cons.prems(1) susp by simp
      have "committed fr' es f2 f'"
      proof (cases s)
        case (Rejected e)
        then show ?thesis using d by (simp add: validateField_resume_def commit_drive_committed)
      next
        case (Fulfilled x)
        show ?thesis
        proof (cases "resolveValidationResult x = []")
          case True
          then have "drive ss' (run_chain fr' rest f2) = (f', Done es)"
            using d Fulfilled Cons.prems(2) f2 fr' by (simp add: validateField_resume_def)
          then show ?thesis using Cons.prems(2) f2 fr' by (intro Cons.IH) simp_all
        next
          case False
          then have "drive ss' (commit fr' (resolveValidationResult x) f2) = (f', Done es)"
            using d Fulfilled Cons.prems(2) f2 fr' by (simp add: validateField_resume_def)
          then show ?thesis by (rule commit_drive_committed)
        qed
      qed
      then show ?thesis using fr' f2 committed_transfer [of fr' es f2 f' fr f] by simp
    qed
  qed
qed

subsection \<open>A run on its own, with one settlement per rule\<close>

lemma passes_verdict: "passes v vs r s \<longleftrightarrow> verdict (awaited r s v vs) = []"
  by (simp add: passes_def verdict_def split: sum.splits)

lemma kept_elsewhere_refl [simp]: "kept_elsewhere k f f"
  by (simp add: kept_elsewhere_def)

lemma kept_elsewhere_trans: "kept_elsewhere k f g \<Longrightarrow> kept_elsewhere k g h \<Longrightarrow> kept_elsewhere k f h"
  by (simp add: kept_elsewhere_def)

lemma solo_commit:
  "solo_result fr f es [] (drive ss (commit fr es f))"
  by (simp add: solo_result_def kept_elsewhere_def commit_def update_conv')

lemma solo_result_step:
  assumes "solo_result fr' f' es called x"
    and "fieldKey fr' = fieldKey fr" "currentValue fr' = currentValue fr"
    and "trace f' = trace f @ [RuleCall (fieldKey fr) (rule_id q)]"
    and "kept_elsewhere (fieldKey fr) f f'"
  shows "solo_result fr f es (q # called) x"
  using assms kept_elsewhere_trans [of "fieldKey fr" f f' "fst x"]
  by (simp add: solo_result_def) (simp add: kept_elsewhere_def)

lemma solo_chain:
  assumes "length ss = length rs"
    and "abortController fr \<notin> aborted f" and "form_values f = vs" and "currentValue fr = v"
  shows "solo_result fr f (errors_of rs ss v vs) (calls_of rs ss v vs)
           (drive (settles_for rs ss v vs) (run_chain fr rs f))"
  using assms
proof (induction rs ss arbitrary: f fr rule: list_induct2')
  case 1
  then show ?case using solo_commit [of fr f "[]" "[]"] by simp
next
  case (4 q rs s ss)
  let ?k = "fieldKey fr"
  define f1 where "f1 = f\<lparr>trace := trace f @ [RuleCall ?k (rule_id q)]\<rparr>"
  have f1: "form_values f1 = vs" "aborted f1 = aborted f"
    "trace f1 = trace f @ [RuleCall ?k (rule_id q)]" "kept_elsewhere ?k f f1"
    using 4 by (simp_all add: f1_def kept_elsewhere_def)
  have len: "length ss = length rs" using 4(2) by simp
  have stop: "solo_result fr f es [q] (drive \<sigma> (commit fr' es g))"
    if "fieldKey fr' = ?k" "currentValue fr' = currentValue fr"
      "trace g = trace f @ [RuleCall ?k (rule_id q)]" "kept_elsewhere ?k f g" for es \<sigma> fr' g
    using solo_commit [of fr' g es \<sigma>] that by (intro solo_result_step [of fr' g]) simp_all
  show ?case
  proof (cases "run q v vs")
    case (Returned x)
    show ?thesis
    proof (cases "resolveValidationResult x = []")
      case True
      then have p: "passes v vs q s" using Returned by (simp add: passes_def awaited_def)
      have step: "run_chain fr (q # rs) f = run_chain fr rs f1"
        using Returned True 4 by (simp add: Let_def f1_def)
      have "solo_result fr f1 (errors_of rs ss v vs) (calls_of rs ss v vs)
           (drive (settles_for rs ss v vs) (run_chain fr rs f1))"
        using len 4(3,4,5) f1 by (intro 4(1)) simp_all
      then have "solo_result fr f (errors_of rs ss v vs) (q # calls_of rs ss v vs)
           (drive (settles_for rs ss v vs) (run_chain fr rs f1))"
        using f1 by (intro solo_result_step [of fr f1]) simp_all
      then show ?thesis using p step Returned by simp
    next
      case False
      then have p: "\<not> passes v vs q s" "verdict (awaited q s v vs) = resolveValidationResult x"
        using Returned by (simp_all add: passes_def awaited_def verdict_def)
      have step: "run_chain fr (q # rs) f = commit fr (resolveValidationResult x) f1"
        using Returned False 4 by (simp add: Let_def f1_def)
      show ?thesis using p step stop [of fr f1] f1 by simp
    qed
  next
    case (Threw e)
    then have p: "\<not> passes v vs q s" "verdict (awaited q s v vs) = [message_of e]"
      by (simp_all add: passes_def awaited_def verdict_def)
    have step: "run_chain fr (q # rs) f = commit fr [message_of e] f1"
      using Threw 4 by (simp add: Let_def f1_def)
    show ?thesis using p step stop [of fr f1] f1 by simp
  next
    case (Thenable kind)
    define f2 where "f2 =
              (if \<not> validatingAsync fr
               then f1\<lparr>errors := AList.update ?k [] (errors f1),
                        isValidating := AList.update ?k True (isValidating f1)\<rparr>
               else f1)"
    define fr' where "fr' = fr\<lparr>validatingAsync := True, remaining := rs\<rparr>"
    have "kept_elsewhere ?k f1 f2" by (simp add: f2_def kept_elsewhere_def update_conv')
    then have f2: "form_values f2 = vs" "aborted f2 = aborted f"
      "trace f2 = trace f @ [RuleCall ?k (rule_id q)]" "kept_elsewhere ?k f f2"
      using f1 kept_elsewhere_trans [of ?k f f1 f2] by (simp_all add: f2_def)
    have fr': "fieldKey fr' = ?k" "abortController fr' = abortController fr"
      "currentValue fr' = currentValue fr" "remaining fr' = rs"
      by (simp_all add: fr'_def)
    have susp: "run_chain fr (q # rs) f = (f2, Suspended fr')"
      using Thenable 4 by (simp add: Let_def f1_def f2_def fr'_def)
    have dr: "drive (settles_for (q # rs) (s # ss) v vs) (run_chain fr (q # rs) f)
        = drive (settles_for rs ss v vs) (validateField_resume fr' s f2)"
      using Thenable susp by simp
    show ?thesis
    proof (cases s)
      case (Rejected e)
      then have p: "\<not> passes v vs q s" "verdict (awaited q s v vs) = [message_of e]"
        using Thenable by (simp_all add: passes_def awaited_def verdict_def)
      have "validateField_resume fr' s f2 = commit fr' [message_of e] f2"
        using Rejected by (simp add: validateField_resume_def)
      then show ?thesis using p dr stop [of fr' f2] f2 fr' by simp
    next
      case (Fulfilled x)
      show ?thesis
      proof (cases "resolveValidationResult x = []")
        case False
        then have p: "\<not> passes v vs q s" "verdict (awaited q s v vs) = resolveValidationResult x"
          using Thenable Fulfilled by (simp_all add: passes_def awaited_def verdict_def)
        have "validateField_resume fr' s f2 = commit fr' (resolveValidationResult x) f2"
          using Fulfilled False 4 f2 fr' by (simp add: validateField_resume_def)
        then show ?thesis using p dr stop [of fr' f2] f2 fr' by simp
      next
        case True
        then have p: "passes v vs q s" using Thenable Fulfilled by (simp add: passes_def awaited_def)
        have res: "validateField_resume fr' s f2 = run_chain fr' rs f2"
          using Fulfilled True 4 f2 fr' by (simp add: validateField_resume_def)
        have "solo_result fr' f2 (errors_of rs ss v vs) (calls_of rs ss v vs)
           (drive (settles_for rs ss v vs) (run_chain fr' rs f2))"
          using len 4(3,4,5) f2 fr' by (intro 4(1)) simp_all
        then have "solo_result fr f (errors_of rs ss v vs) (q # calls_of rs ss v vs)
           (drive (settles_for rs ss v vs) (run_chain fr' rs f2))"
          using f2 fr' by (intro solo_result_step [of fr' f2]) simp_all
        then show ?thesis using p dr res by simp
      qed
    qed
  qed
qed simp_all

text \<open>validateField on a cache miss, run on its own with one settlement per rule.\<close>

lemma validateField_solo:
  fixes p :: string and f :: form
  defines "rs \<equiv> fieldRules_of p f" and "v \<equiv> currentValue_of p f" and "vs \<equiv> form_values f"
  assumes miss: "cache_miss p f" and fresh: "fresh_controller f" and len: "length ss = length rs"
  defines "x \<equiv> drive (settles_for rs ss v vs) (validateField p f)"
  shows "snd x = Done (errors_of rs ss v vs)"
    and "map_of (errors (fst x)) p = Some (errors_of rs ss v vs)"
    and "trace (fst x) = trace f @ Invoked p # map (\<lambda>q. RuleCall p (rule_id q)) (calls_of rs ss v vs)"
    and "kept_elsewhere p f (fst x)"
    and "rs \<noteq> [] \<Longrightarrow> map_of (validationCache (fst x)) p
           = Some \<lparr>snap_value = deepClone (heap_alloc f) v, snap_errors = errors_of rs ss v vs\<rparr>"
proof -
  have all: "snd x = Done (errors_of rs ss v vs)
    \<and> map_of (errors (fst x)) p = Some (errors_of rs ss v vs)
    \<and> trace (fst x) = trace f @ Invoked p # map (\<lambda>q. RuleCall p (rule_id q)) (calls_of rs ss v vs)
    \<and> kept_elsewhere p f (fst x)
    \<and> (rs \<noteq> [] \<longrightarrow> map_of (validationCache (fst x)) p
           = Some \<lparr>snap_value = deepClone (heap_alloc f) v, snap_errors = errors_of rs ss v vs\<rparr>)"
  proof (cases "rs = []")
    case True
    then have "ss = []" using len by simp
    then show ?thesis using True
      unfolding x_def rs_def
      by (simp add: validateField_unfold update_conv' kept_elsewhere_def)
  next
    case False
    then have vf: "validateField p f = run_chain (first_frame p f) rs (registered p f)"
      using miss fresh validateField_miss [of p f] by (simp add: rs_def)
    have "solo_result (first_frame p f) (registered p f) (errors_of rs ss v vs) (calls_of rs ss v vs)
           (drive (settles_for rs ss v vs) (run_chain (first_frame p f) rs (registered p f)))"
      using len registered_not_aborted [OF fresh, of p]
      by (intro solo_chain) (simp_all add: v_def vs_def)
    then have "solo_result (first_frame p f) (registered p f) (errors_of rs ss v vs) (calls_of rs ss v vs) x"
      by (simp add: x_def vf)
    then show ?thesis
      by (simp add: solo_result_def kept_elsewhere_def v_def)
  qed
  then show "snd x = Done (errors_of rs ss v vs)"
    and "map_of (errors (fst x)) p = Some (errors_of rs ss v vs)"
    and "trace (fst x) = trace f @ Invoked p # map (\<lambda>q. RuleCall p (rule_id q)) (calls_of rs ss v vs)"
    and "kept_elsewhere p f (fst x)"
    and "rs \<noteq> [] \<Longrightarrow> map_of (validationCache (fst x)) p
           = Some \<lparr>snap_value = deepClone (heap_alloc f) v, snap_errors = errors_of rs ss v vs\<rparr>"
    by simp_all
qed

lemma all_pass:
  "list_all2 (passes v vs) rs ss \<Longrightarrow> calls_of rs ss v vs = rs \<and> errors_of rs ss v vs = []"
  by (induction rs ss rule: list_all2_induct) simp_all

lemma first_failure:
  assumes "list_all2 (passes v vs) pre sa" and "\<not> passes v vs r s"
  shows "calls_of (pre @ r # post) (sa @ s # sb) v vs = pre @ [r]
       \<and> errors_of (pre @ r # post) (sa @ s # sb) v vs = verdict (awaited r s v vs)"
  using assms by (induction pre sa rule: list_all2_induct) simp_all

section \<open>Controllers are fresh in every reachable form\<close>

text \<open>
  The theorems on single invocations assume \<open>fresh_controller\<close>. It follows from
  \<open>controllers_below\<close>, which holds of a new form and is kept by every step of
  \<open>validateField\<close>.
\<close>

lemma controllers_below_fresh: "controllers_below f \<Longrightarrow> fresh_controller f"
  by (auto simp: controllers_below_def fresh_controller_def)

lemma controllers_below_new_form: "controllers_below (new_form initialValues r)"
  by (simp add: controllers_below_def new_form_def)

lemma set_delete_subset: "set (AList.delete k al) \<subseteq> set al"
  by (induction al) auto

lemma set_update_subset: "set (AList.update k v al) \<subseteq> insert (k, v) (set al)"
  by (induction al) auto

text \<open>Steps that register no controller keep the invariant as soon as they shrink the
  registry and leave the counter and the aborted set alone.\<close>

lemma controllers_below_shrink:
  assumes "controllers_below f"
    and "aborted g = aborted f" and "next_controller g = next_controller f"
    and "set (abortControllers g) \<subseteq> set (abortControllers f)"
  shows "controllers_below g"
  using assms unfolding controllers_below_def by (metis subsetD)

lemma controllers_below_finally: "controllers_below f \<Longrightarrow> controllers_below (finally_block fr f)"
  by (rule controllers_below_shrink [of f]) (simp_all add: finally_block_def set_delete_subset)

lemma controllers_below_release: "controllers_below f \<Longrightarrow> controllers_below (release k c f)"
  by (rule controllers_below_shrink [of f]) (simp_all add: release_def set_delete_subset)

lemma controllers_below_commit: "controllers_below f \<Longrightarrow> controllers_below (fst (commit fr es f))"
  unfolding commit_def fst_conv
  by (rule controllers_below_finally) (simp add: controllers_below_def)

lemma controllers_below_run_chain:
  "controllers_below f \<Longrightarrow> controllers_below (fst (run_chain fr rs f))"
proof (induction rs arbitrary: f)
  case Nil
  then show ?case by (simp add: controllers_below_commit)
next
  case (Cons r rs)
  let ?f1 = "f\<lparr>trace := trace f @ [RuleCall (fieldKey fr) (rule_id r)]\<rparr>"
  have 1: "controllers_below ?f1" using Cons.prems by (simp add: controllers_below_def)
  show ?case
  proof (cases "run r (currentValue fr) (form_values f)")
    case (Returned x)
    then show ?thesis using Cons.IH [OF 1] controllers_below_commit [OF 1] by (simp add: Let_def)
  next
    case (Threw e)
    then show ?thesis using controllers_below_commit [OF 1] by (simp add: Let_def)
  next
    case (Thenable kind)
    then show ?thesis using 1 by (simp add: Let_def controllers_below_def)
  qed
qed

lemma controllers_below_resume:
  "controllers_below f \<Longrightarrow> controllers_below (fst (validateField_resume fr s f))"
  by (cases s)
    (simp_all add: validateField_resume_def Let_def controllers_below_commit
      controllers_below_run_chain controllers_below_finally)

lemma controllers_below_registered:
  assumes "controllers_below f"
  shows "controllers_below (registered k f)"
proof -
  have a: "\<forall>c\<in>aborted (registered k f). c < Suc (next_controller f)"
  proof (cases "map_of (abortControllers f) k")
    case None
    then show ?thesis using assms by (auto simp: registered_def controllers_below_def less_SucI)
  next
    case (Some c)
    then have "(k, c) \<in> set (abortControllers f)" by (rule map_of_SomeD)
    then have "c < next_controller f" using assms by (auto simp: controllers_below_def)
    then show ?thesis using assms Some by (auto simp: registered_def controllers_below_def less_SucI)
  qed
  have "set (abortControllers (registered k f))
      \<subseteq> insert (k, next_controller f) (set (abortControllers f))"
    by (simp add: registered_def set_update_subset)
  then have b: "\<forall>entry\<in>set (abortControllers (registered k f)). snd entry < Suc (next_controller f)"
    using assms unfolding controllers_below_def by (fastforce simp: less_Suc_eq)
  show ?thesis using a b by (simp add: controllers_below_def)
qed

lemma controllers_below_validateField:
  assumes "controllers_below f"
  shows "controllers_below (fst (validateField k f))"
proof -
  have r: "controllers_below (registered k f)" using assms by (rule controllers_below_registered)
  have e: "controllers_below ((registered k f)\<lparr>errors := es\<rparr>)" for es
    using r by (simp add: controllers_below_def)
  show ?thesis
    by (simp add: validateField_unfold controllers_below_release [OF e]
        controllers_below_finally [OF r] controllers_below_run_chain [OF r])
qed

lemma controllers_below_drive:
  "controllers_below (fst x) \<Longrightarrow> controllers_below (fst (drive ss x))"
proof (induction ss x rule: drive.induct)
  case (1 s ss g fr)
  then show ?case using controllers_below_resume [of g fr s] by simp
qed simp_all

lemma controllers_below_solo:
  "controllers_below f \<Longrightarrow> controllers_below (fst (drive ss (validateField k f)))"
  by (intro controllers_below_drive controllers_below_validateField)

lemma controllers_below_cache:
  "controllers_below (f\<lparr>validationCache := c\<rparr>) = controllers_below f"
  by (simp add: controllers_below_def)

section \<open>The chain stops at the first failing rule\<close>



section \<open>Rule faults are contained\<close>

lemma run_chain_not_Failed: "not_Failed (snd (run_chain fr rs f))"
  by (induction rs arbitrary: f) (auto simp: Let_def commit_def split: outcome.splits)

lemma resume_not_Failed: "not_Failed (snd (validateField_resume fr s f))"
  by (auto simp: validateField_resume_def Let_def commit_def run_chain_not_Failed split: settle.splits)

lemma validateField_not_Failed: "not_Failed (snd (validateField key f))"
  by (simp add: validateField_unfold run_chain_not_Failed)

lemma start_all_not_Failed: "list_all not_Failed (snd (start_all ks f))"
proof (induction ks arbitrary: f)
  case Nil
  then show ?case by simp
next
  case (Cons k ks)
  obtain f1 st where v: "validateField k f = (f1, st)" by (cases "validateField k f")
  obtain f2 sts where s: "start_all ks f1 = (f2, sts)" by (cases "start_all ks f1")
  have "not_Failed st" using validateField_not_Failed [of k f] v by simp
  moreover have "list_all not_Failed sts" using Cons [of f1] s by simp
  ultimately show ?case using v s by simp
qed

lemma resume_at_not_Failed:
  assumes "list_all not_Failed (snd x)"
  shows "list_all not_Failed (snd (resume_at x ev))"
proof -
  obtain f sts where x: "x = (f, sts)" by (cases x)
  obtain i s where ev: "ev = (i, s)" by (cases ev)
  show ?thesis
  proof (cases "i < length sts")
    case False
    then show ?thesis using assms x ev by (simp add: resume_at_def)
  next
    case True
    show ?thesis
    proof (cases "sts ! i")
      case (Suspended fr)
      obtain f1 st where r: "validateField_resume fr s f = (f1, st)"
        by (cases "validateField_resume fr s f")
      have "not_Failed st" using resume_not_Failed [of fr s f] r by simp
      then have "list_all not_Failed (sts[i := st])"
        using assms x by (auto simp: list_all_iff dest: set_update_subset_insert [THEN subsetD])
      then show ?thesis using x ev True Suspended r by (simp add: resume_at_def)
    qed (use assms x ev True in \<open>simp_all add: resume_at_def\<close>)
  qed
qed

lemma events_not_Failed:
  "list_all not_Failed (snd x) \<Longrightarrow> list_all not_Failed (snd (foldl resume_at x evs))"
  by (induction evs arbitrary: x) (simp_all add: resume_at_not_Failed)

lemma rejection_None: "list_all not_Failed sts \<Longrightarrow> rejection sts = None"
  by (induction sts rule: rejection.induct) simp_all

lemma validateForm_never_rejects: "snd (snd (validateForm t evs f)) \<noteq> Some (Inl e)"
proof -
  obtain expanded f1 where g: "getExpandedRules (invalidateExpandedRulesCache f) = (expanded, f1)"
    by (cases "getExpandedRules (invalidateExpandedRulesCache f)")
  obtain f2 sts where r: "foldl resume_at (start_all (map fst expanded) f1) evs = (f2, sts)"
    by (cases "foldl resume_at (start_all (map fst expanded) f1) evs")
  have "list_all not_Failed sts"
    using events_not_Failed [OF start_all_not_Failed, of "map fst expanded" f1 evs] r by simp
  then have "rejection sts = None" by (rule rejection_None)
  then show ?thesis
    by (simp add: validateForm_def g r Let_def promise_all_def split: option.splits sum.splits)
qed

text \<open>
  C7, as stated: the error recorded for a rule that throws carries the description of
  what was thrown. It fails for a rule that throws a value that is not an \<open>Error\<close>: the
  second rule of \<open>name\<close> throws the string \<open>boom\<close>, and the error recorded is the fixed
  text \<open>Validation error\<close>.
\<close>

theorem validateField_fault_message_counterexample:
  "run (throws_value 2 (JStr ''boom'')) (JStr ''Ann'') (form_values blunt) = Threw (OtherThrown (JStr ''boom''))
   \<and> snd (drive [] (validateField ''name'' blunt)) = Done [''Validation error'']
   \<and> map_of (errors (fst (drive [] (validateField ''name'' blunt)))) ''name'' = Some [''Validation error'']"
  by (simp add: blunt_def throws_value_def form_eval path_eval run_eval get_prop_def)

text \<open>
  C7, amended. Let the chain of \<open>p\<close> be \<open>pre @ r # post\<close>, let the cache miss, and
  consider the run of \<open>validateField(p)\<close> on its own in which every rule of \<open>pre\<close> passes
  and \<open>r\<close> throws \<open>e\<close>, or returns a promise that is rejected with \<open>e\<close>. Then the
  invocation returns normally with a single message: the message of \<open>e\<close> when \<open>e\<close> is an
  \<open>Error\<close>, the text \<open>Validation error\<close> when it is any other value. This is the error
  list committed for \<open>p\<close>, and no rule of \<open>post\<close> is called. The promise of
  \<open>validateForm\<close> is never rejected, whatever the rules do and in whatever order their
  promises settle.
\<close>

theorem validateField_contains_rule_fault:
  fixes p :: string and f :: form
  defines "v \<equiv> currentValue_of p f" and "vs \<equiv> form_values f"
  assumes chain: "fieldRules_of p f = pre @ r # post"
    and miss: "cache_miss p f" and fresh: "fresh_controller f"
    and pass: "list_all2 (passes v vs) pre sa"
    and fault: "awaited r s v vs = Inl e"
  defines "res \<equiv> drive (settles_for (pre @ [r]) (sa @ [s]) v vs) (validateField p f)"
    and "msg \<equiv> (case e of ErrorObj m \<Rightarrow> m | OtherThrown x \<Rightarrow> ''Validation error'')"
  shows "snd res = Done [msg]
       \<and> map_of (errors (fst res)) p = Some [msg]
       \<and> trace (fst res) = trace f @ Invoked p # map (\<lambda>q. RuleCall p (rule_id q)) (pre @ [r])
       \<and> (\<forall>t evs g e'. snd (snd (validateForm t evs g)) \<noteq> Some (Inl e'))"
proof -
  have "message_of e = msg" by (cases e) (simp_all add: msg_def)
  then have "verdict (awaited r s v vs) = [msg]"
    using fault by (simp add: verdict_def)
  then show ?thesis
    using validateField_decisive [OF chain miss fresh, of sa s "[msg]"] pass
      validateForm_never_rejects
    unfolding res_def v_def vs_def by simp
qed

theorem validateField_contains_rule_fault_witness:
  "fieldRules_of ''username'' signup = [required 1 ''Required''] @ remote 2 # [faulty 3 ''never called'']
   \<and> cache_miss ''username'' signup \<and> fresh_controller signup
   \<and> list_all2 (passes (currentValue_of ''username'' signup) (form_values signup))
        [required 1 ''Required''] [Fulfilled JNull]
   \<and> awaited (remote 2) (Rejected (ErrorObj ''Server down'')) (currentValue_of ''username'' signup)
        (form_values signup) = Inl (ErrorObj ''Server down'')
   \<and> snd (drive [Rejected (ErrorObj ''Server down'')] (validateField ''username'' signup))
       = Done [''Server down'']
   \<and> map_of (errors (fst (drive [Rejected (ErrorObj ''Server down'')] (validateField ''username'' signup))))
        ''username'' = Some [''Server down'']
   \<and> trace (fst (drive [Rejected (ErrorObj ''Server down'')] (validateField ''username'' signup)))
       = [Invoked ''username'', RuleCall ''username'' 1, RuleCall ''username'' 2]
   \<and> fieldRules_of ''name'' blunt
       = [required 1 ''Name''] @ throws_value 2 (JStr ''boom'') # [required 3 ''Again'']
   \<and> awaited (throws_value 2 (JStr ''boom'')) (Fulfilled JNull) (currentValue_of ''name'' blunt)
        (form_values blunt) = Inl (OtherThrown (JStr ''boom''))
   \<and> snd (drive [] (validateField ''name'' blunt)) = Done [''Validation error'']
   \<and> trace (fst (drive [] (validateField ''name'' blunt)))
       = [Invoked ''name'', RuleCall ''name'' 1, RuleCall ''name'' 2]
   \<and> snd (snd (validateForm None [(0, Rejected (ErrorObj ''Server down''))] signup)) = Some (Inr False)
   \<and> map_of (errors (fst (snd (validateForm None [(0, Rejected (ErrorObj ''Server down''))] signup))))
        ''username'' = Some [''Server down'']"
proof -
  have 1: "fieldRules_of ''username'' signup
      = [required 1 ''Required''] @ remote 2 # [faulty 3 ''never called'']"
    by (simp add: signup_def form_eval path_eval)
  have 2: "cache_miss ''username'' signup" by (simp add: signup_def form_eval)
  have 3: "fresh_controller signup" by (simp add: signup_def form_eval)
  have 4: "list_all2 (passes (currentValue_of ''username'' signup) (form_values signup))
        [required 1 ''Required''] [Fulfilled JNull]"
    by (simp add: signup_def form_eval get_prop_def)
  have 5: "awaited (remote 2) (Rejected (ErrorObj ''Server down'')) (currentValue_of ''username'' signup)
        (form_values signup) = Inl (ErrorObj ''Server down'')"
    by (simp add: form_eval)
  have 6: "settles_for ([required 1 ''Required''] @ [remote 2])
       ([Fulfilled JNull] @ [Rejected (ErrorObj ''Server down'')])
       (currentValue_of ''username'' signup) (form_values signup) = [Rejected (ErrorObj ''Server down'')]"
    by (simp add: form_eval)
  have 7: "trace signup = []" by (simp add: signup_def form_eval)
  have b1: "fieldRules_of ''name'' blunt
       = [required 1 ''Name''] @ throws_value 2 (JStr ''boom'') # [required 3 ''Again'']"
    by (simp add: blunt_def form_eval path_eval)
  have b2: "cache_miss ''name'' blunt" by (simp add: blunt_def form_eval)
  have b3: "fresh_controller blunt" by (simp add: blunt_def form_eval)
  have b4: "list_all2 (passes (currentValue_of ''name'' blunt) (form_values blunt))
        [required 1 ''Name''] [Fulfilled JNull]"
    by (simp add: blunt_def form_eval get_prop_def)
  have b5: "awaited (throws_value 2 (JStr ''boom'')) (Fulfilled JNull) (currentValue_of ''name'' blunt)
        (form_values blunt) = Inl (OtherThrown (JStr ''boom''))"
    by (simp add: form_eval throws_value_def)
  have b6: "settles_for ([required 1 ''Name''] @ [throws_value 2 (JStr ''boom'')])
       ([Fulfilled JNull] @ [Fulfilled JNull])
       (currentValue_of ''name'' blunt) (form_values blunt) = []"
    by (simp add: form_eval throws_value_def)
  have b7: "trace blunt = []" by (simp add: blunt_def form_eval)
  have 8: "snd (snd (validateForm None [(0, Rejected (ErrorObj ''Server down''))] signup)) = Some (Inr False)"
    by (simp add: signup_def form_eval path_eval run_eval form_run_eval get_prop_def)
  have 9: "map_of (errors (fst (snd (validateForm None [(0, Rejected (ErrorObj ''Server down''))] signup))))
        ''username'' = Some [''Server down'']"
    by (simp add: signup_def form_eval path_eval run_eval form_run_eval get_prop_def)
  show ?thesis
    using validateField_contains_rule_fault [OF 1 2 3 4 5]
      validateField_contains_rule_fault [OF b1 b2 b3 b4 b5] 1 2 3 4 5 b1 b5 8 9
    unfolding 6 7 b6 b7 by (simp add: remote_def required_def throws_value_def)
qed


section \<open>The validation cache\<close>

lemma validateField_done_cached:
  assumes first: "drive ss (validateField p f) = (f1, Done es)"
    and nonempty: "fieldRules_of p f \<noteq> []" and fresh: "fresh_controller f"
  shows "\<exists>c. map_of (validationCache f1) p = Some c \<and> snap_errors c = es
             \<and> form_values f1 = form_values f \<and> rules f1 = rules f"
proof (cases "cache_miss p f")
  case True
  then have "drive ss (run_chain (first_frame p f) (fieldRules_of p f) (registered p f)) = (f1, Done es)"
    using first nonempty fresh by (simp add: validateField_miss)
  then have "committed (first_frame p f) es (registered p f) f1"
    using registered_not_aborted [OF fresh, of p] by (intro run_done_committed) simp_all
  then show ?thesis by (simp add: committed_def)
next
  case False
  then obtain c where c: "map_of (validationCache f) p = Some c"
    by (auto simp: cache_miss_def split: option.splits)
  have "validateField p f =
      (release p (next_controller f)
          ((registered p f)\<lparr>errors := AList.update p (snap_errors c) (errors f)\<rparr>),
       Done (snap_errors c))"
    using False nonempty c by (simp add: validateField_unfold)
  then show ?thesis using first c by auto
qed

lemma validateField_hit:
  assumes "fieldRules_of p f \<noteq> []" and "\<not> cache_miss p f"
    and "map_of (validationCache f) p = Some c"
  shows "snd (validateField p f) = Done (snap_errors c)"
    and "trace (fst (validateField p f)) = trace f @ [Invoked p]"
    and "map_of (errors (fst (validateField p f))) p = Some (snap_errors c)"
  using assms by (simp_all add: validateField_unfold update_conv')

lemma map_of_filter_fst:
  "map_of (filter (\<lambda>entry. P (fst entry)) al) k = (if P k then map_of al k else None)"
  by (induction al) auto

lemma clearCache_lookup:
  assumes "p \<noteq> []"
  shows "map_of (validationCache (clearCache (Some p) f)) k =
     (if k = p \<or> startsWith k (p @ ''.'') then None else map_of (validationCache f) k)"
proof -
  have "map_of (validationCache (clearCache (Some p) f)) k =
      map_of (filter (\<lambda>entry. \<not> startsWith (fst entry) (p @ ''.''))
           (AList.delete p (validationCache f))) k"
    using assms by (simp add: clearCache_def)
  also have "\<dots> = (if \<not> startsWith k (p @ ''.'') then map_of (AList.delete p (validationCache f)) k
                     else None)"
    by (rule map_of_filter_fst)
  also have "\<dots> = (if k = p \<or> startsWith k (p @ ''.'') then None else map_of (validationCache f) k)"
    by (auto simp: delete_conv')
  finally show ?thesis .
qed

lemma clearCache_fields [simp]:
  "form_values (clearCache a f) = form_values f"
  "rules (clearCache a f) = rules f"
  "trace (clearCache a f) = trace f"
  "errors (clearCache a f) = errors f"
  "aborted (clearCache a f) = aborted f"
  "abortControllers (clearCache a f) = abortControllers f"
  "next_controller (clearCache a f) = next_controller f"
  by (simp_all add: clearCache_def split: option.splits)

lemma clearCache_derived [simp]:
  "fieldRules_of k (clearCache a f) = fieldRules_of k f"
  "currentValue_of k (clearCache a f) = currentValue_of k f"
  "fresh_controller (clearCache a f) = fresh_controller f"
  by (simp_all add: fieldRules_of_def currentValue_of_def fresh_controller_def split: option.splits)

lemma clearCache_miss: "p \<noteq> [] \<Longrightarrow> cache_miss p (clearCache (Some p) f)"
  by (simp add: cache_miss_def clearCache_lookup)

text \<open>
  C2. Let a first call of \<open>validateField(p)\<close>, for a field that has rules, have completed
  with the errors \<open>es\<close>, leaving the form \<open>f1\<close>, and let the stored snapshot deep-equal
  the current value of \<open>p\<close> in \<open>f1\<close>. Then a second call returns \<open>es\<close> at once and
  stores them as the errors of \<open>p\<close>, and its trace holds the call itself and no call of a
  rule. \<open>clearCache(p)\<close> drops the entry of \<open>p\<close> and of every key that extends \<open>p\<close> by a
  dot, and no other. The next \<open>validateField(p)\<close>, run on its own with the settlements
  \<open>sa\<close> (one per rule), executes the chain again from its first rule: the rules are called
  in list order up to the first that does not pass, all of them when all pass, and the
  errors returned and stored are those of this run, not the ones recorded before.
\<close>

theorem validateField_cache_idempotent:
  fixes p :: string and f f1 :: form
  defines "rs \<equiv> fieldRules_of p f1" and "v \<equiv> currentValue_of p f1" and "vs \<equiv> form_values f1"
  defines "again \<equiv> \<lambda>sa. drive (settles_for rs sa v vs) (validateField p (clearCache (Some p) f1))"
  assumes first: "drive ss (validateField p f) = (f1, Done es)"
    and nonempty: "fieldRules_of p f \<noteq> []" and fresh: "fresh_controller f"
    and unchanged: "\<not> cache_miss p f1"
  shows "snd (validateField p f1) = Done es
       \<and> trace (fst (validateField p f1)) = trace f1 @ [Invoked p]
       \<and> map_of (errors (fst (validateField p f1))) p = Some es
       \<and> (p \<noteq> [] \<longrightarrow>
            (\<forall>k. map_of (validationCache (clearCache (Some p) f1)) k
                  = (if k = p \<or> startsWith k (p @ ''.'') then None
                     else map_of (validationCache f1) k))
            \<and> (fresh_controller f1 \<longrightarrow>
                 (\<forall>sa. length sa = length rs \<longrightarrow>
                    snd (again sa) = Done (errors_of rs sa v vs)
                    \<and> map_of (errors (fst (again sa))) p = Some (errors_of rs sa v vs)
                    \<and> trace (fst (again sa))
                        = trace f1 @ Invoked p # map (\<lambda>q. RuleCall p (rule_id q)) (calls_of rs sa v vs))
                 \<and> (\<forall>sa. list_all2 (passes v vs) rs sa \<longrightarrow>
                    snd (again sa) = Done []
                    \<and> trace (fst (again sa))
                        = trace f1 @ Invoked p # map (\<lambda>q. RuleCall p (rule_id q)) rs)))"
proof -
  obtain c where c: "map_of (validationCache f1) p = Some c" "snap_errors c = es"
    and same: "form_values f1 = form_values f" "rules f1 = rules f"
    using validateField_done_cached [OF first nonempty fresh] by auto
  have ne1: "fieldRules_of p f1 \<noteq> []"
    using nonempty fieldRules_of_cong [of f1 f p] same by simp
  have hit: "snd (validateField p f1) = Done es"
    "trace (fst (validateField p f1)) = trace f1 @ [Invoked p]"
    "map_of (errors (fst (validateField p f1))) p = Some es"
    using validateField_hit [OF ne1 unchanged c(1)] c(2) by simp_all
  have clear: "p \<noteq> [] \<Longrightarrow> map_of (validationCache (clearCache (Some p) f1)) k
                  = (if k = p \<or> startsWith k (p @ ''.'') then None
                     else map_of (validationCache f1) k)" for k
    by (rule clearCache_lookup)
  have run: "snd (again sa) = Done (errors_of rs sa v vs)
        \<and> map_of (errors (fst (again sa))) p = Some (errors_of rs sa v vs)
        \<and> trace (fst (again sa))
            = trace f1 @ Invoked p # map (\<lambda>q. RuleCall p (rule_id q)) (calls_of rs sa v vs)"
    if "p \<noteq> []" "fresh_controller f1" "length sa = length rs" for sa
    using validateField_solo [of p "clearCache (Some p) f1" sa] that
    by (simp add: clearCache_miss again_def rs_def v_def vs_def)
  have pass: "snd (again sa) = Done []
        \<and> trace (fst (again sa)) = trace f1 @ Invoked p # map (\<lambda>q. RuleCall p (rule_id q)) rs"
    if "p \<noteq> []" "fresh_controller f1" "list_all2 (passes v vs) rs sa" for sa
    using run [OF that(1,2), of sa] that(3) all_pass [OF that(3)] list_all2_lengthD [OF that(3)]
    by simp
  show ?thesis using hit clear run pass by blast
qed

lemmas roster_eval =
  roster_checked_def roster_def roster_start_def roster_rules_def reserved_def
  form_eval path_eval run_eval get_prop_def

theorem validateField_cache_idempotent_witness:
  "drive [Fulfilled (JStr ''Refused'')] (validateField ''contacts'' roster) = (roster_checked, Done [''Refused''])
   \<and> fieldRules_of ''contacts'' roster \<noteq> [] \<and> fresh_controller roster
   \<and> \<not> cache_miss ''contacts'' roster_checked
   \<and> ''contacts'' \<noteq> [] \<and> fresh_controller roster_checked
   \<and> fieldRules_of ''contacts'' roster_checked = [required 1 ''Required'', remote 2, reserved 3]
   \<and> list_all2 (passes (currentValue_of ''contacts'' roster_checked) (form_values roster_checked))
        (fieldRules_of ''contacts'' roster_checked) [Fulfilled JNull, Fulfilled JNull, Fulfilled JNull]
   \<and> trace roster_checked = trace roster @ [Invoked ''contacts'', RuleCall ''contacts'' 1, RuleCall ''contacts'' 2]
   \<and> map_of (validationCache roster_checked) ''contacts''
       = Some \<lparr>snap_value = JArr 2 [JObj 3 [(''name'', JStr ''bob'')]], snap_errors = [''Refused'']\<rparr>
   \<and> snd (validateField ''contacts'' roster_checked) = Done [''Refused'']
   \<and> trace (fst (validateField ''contacts'' roster_checked))
       = trace roster_checked @ [Invoked ''contacts'']
   \<and> map_of (errors (fst (validateField ''contacts'' roster_checked))) ''contacts'' = Some [''Refused'']
   \<and> map_of (validationCache roster_checked) ''contacts.0.name''
       = Some \<lparr>snap_value = JStr ''bob'', snap_errors = []\<rparr>
   \<and> map_of (validationCache (clearCache (Some ''contacts'') roster_checked)) ''contacts'' = None
   \<and> map_of (validationCache (clearCache (Some ''contacts'') roster_checked)) ''contacts.0.name'' = None
   \<and> map_of (validationCache (clearCache (Some ''contacts'') roster_checked)) ''contactsNote''
       = Some \<lparr>snap_value = JStr ''x'', snap_errors = []\<rparr>
   \<and> snd (drive [Fulfilled JNull] (validateField ''contacts'' (clearCache (Some ''contacts'') roster_checked)))
       = Done []
   \<and> map_of (errors (fst (drive [Fulfilled JNull]
          (validateField ''contacts'' (clearCache (Some ''contacts'') roster_checked))))) ''contacts''
       = Some []
   \<and> trace (fst (drive [Fulfilled JNull]
          (validateField ''contacts'' (clearCache (Some ''contacts'') roster_checked))))
       = trace roster_checked
           @ [Invoked ''contacts'', RuleCall ''contacts'' 1, RuleCall ''contacts'' 2, RuleCall ''contacts'' 3]"
proof -
  let ?v = "JArr 1 [JObj 2 [(''name'', JStr ''bob'')]]"
  let ?vs = "JObj 0 [(''contacts'', JArr 1 [JObj 2 [(''name'', JStr ''bob'')]]), (''contactsNote'', JStr ''x'')]"
  have 1: "drive [Fulfilled (JStr ''Refused'')] (validateField ''contacts'' roster)
      = (roster_checked, Done [''Refused''])"
    by (simp add: roster_eval deepEqual.simps)
  have 2: "fieldRules_of ''contacts'' roster \<noteq> []"
    by (simp add: roster_eval deepEqual.simps)
  have 3: "fresh_controller roster" by (simp add: roster_eval deepEqual.simps)
  have 4: "\<not> cache_miss ''contacts'' roster_checked"
    by (simp add: roster_eval deepEqual.simps)
  have 5: "fresh_controller roster_checked"
    by (simp add: roster_eval deepEqual.simps)
  have 6: "trace roster_checked
      = trace roster @ [Invoked ''contacts'', RuleCall ''contacts'' 1, RuleCall ''contacts'' 2]"
    by (simp add: roster_eval deepEqual.simps)
  have 7: "fieldRules_of ''contacts'' roster_checked = [required 1 ''Required'', remote 2, reserved 3]"
    by (simp add: roster_eval deepEqual.simps)
  have 8: "currentValue_of ''contacts'' roster_checked = ?v" "form_values roster_checked = ?vs"
    by (simp_all add: roster_eval deepEqual.simps)
  have 9: "list_all2 (passes ?v ?vs)
        [required 1 ''Required'', remote 2, reserved 3] [Fulfilled JNull, Fulfilled JNull, Fulfilled JNull]"
    by (simp add: reserved_def form_eval)
  have 10: "settles_for [required 1 ''Required'', remote 2, reserved 3]
        [Fulfilled JNull, Fulfilled JNull, Fulfilled JNull] ?v ?vs = [Fulfilled JNull]"
    by (simp add: reserved_def form_eval)
  have 11: "errors_of [required 1 ''Required'', remote 2, reserved 3]
        [Fulfilled JNull, Fulfilled JNull, Fulfilled JNull] ?v ?vs = []"
    by (simp add: reserved_def form_eval)
  have 12: "validationCache roster_checked
      = [(''contacts.0.name'', \<lparr>snap_value = JStr ''bob'', snap_errors = []\<rparr>),
         (''contactsNote'', \<lparr>snap_value = JStr ''x'', snap_errors = []\<rparr>),
         (''contacts'', \<lparr>snap_value = JArr 2 [JObj 3 [(''name'', JStr ''bob'')]],
                          snap_errors = [''Refused'']\<rparr>)]"
    by (simp add: roster_eval deepEqual.simps)
  let ?again = "\<lambda>sa. drive (settles_for (fieldRules_of ''contacts'' roster_checked) sa
         (currentValue_of ''contacts'' roster_checked) (form_values roster_checked))
       (validateField ''contacts'' (clearCache (Some ''contacts'') roster_checked))"
  let ?sa = "[Fulfilled JNull, Fulfilled JNull, Fulfilled JNull]"
  note c2 = validateField_cache_idempotent [OF 1 2 3 4]
  have hit: "snd (validateField ''contacts'' roster_checked) = Done [''Refused'']"
    "trace (fst (validateField ''contacts'' roster_checked)) = trace roster_checked @ [Invoked ''contacts'']"
    "map_of (errors (fst (validateField ''contacts'' roster_checked))) ''contacts'' = Some [''Refused'']"
    using c2 by simp_all
  have clear: "map_of (validationCache (clearCache (Some ''contacts'') roster_checked)) k
      = (if k = ''contacts'' \<or> startsWith k (''contacts'' @ ''.'') then None
         else map_of (validationCache roster_checked) k)" for k
    using c2 by simp
  have cleared: "map_of (validationCache (clearCache (Some ''contacts'') roster_checked)) ''contacts'' = None"
    "map_of (validationCache (clearCache (Some ''contacts'') roster_checked)) ''contacts.0.name'' = None"
    "map_of (validationCache (clearCache (Some ''contacts'') roster_checked)) ''contactsNote''
       = Some \<lparr>snap_value = JStr ''x'', snap_errors = []\<rparr>"
    unfolding clear 12 by (simp_all add: startsWith_def)
  have "length ?sa = length (fieldRules_of ''contacts'' roster_checked)" by (simp add: 7)
  then have run: "snd (?again ?sa)
        = Done (errors_of (fieldRules_of ''contacts'' roster_checked) ?sa
             (currentValue_of ''contacts'' roster_checked) (form_values roster_checked))"
    "map_of (errors (fst (?again ?sa))) ''contacts''
        = Some (errors_of (fieldRules_of ''contacts'' roster_checked) ?sa
             (currentValue_of ''contacts'' roster_checked) (form_values roster_checked))"
    using c2 5 by simp_all
  have "list_all2 (passes (currentValue_of ''contacts'' roster_checked) (form_values roster_checked))
        (fieldRules_of ''contacts'' roster_checked) ?sa"
    unfolding 7 8 by (rule 9)
  then have pass: "trace (fst (?again ?sa))
       = trace roster_checked @ Invoked ''contacts''
           # map (\<lambda>q. RuleCall ''contacts'' (rule_id q)) (fieldRules_of ''contacts'' roster_checked)"
    using c2 5 by simp
  have run': "snd (drive [Fulfilled JNull]
         (validateField ''contacts'' (clearCache (Some ''contacts'') roster_checked))) = Done []"
    "map_of (errors (fst (drive [Fulfilled JNull]
          (validateField ''contacts'' (clearCache (Some ''contacts'') roster_checked))))) ''contacts''
       = Some []"
    using run unfolding 7 8 10 11 by simp_all
  have pass': "trace (fst (drive [Fulfilled JNull]
          (validateField ''contacts'' (clearCache (Some ''contacts'') roster_checked))))
       = trace roster_checked
           @ [Invoked ''contacts'', RuleCall ''contacts'' 1, RuleCall ''contacts'' 2, RuleCall ''contacts'' 3]"
    using pass unfolding 7 8 10 by (simp add: required_def remote_def reserved_def)
  show ?thesis
    using 1 2 3 4 5 6 hit cleared run' pass'
    unfolding 7 8 12 using 9 by simp
qed


section \<open>Dependent fields\<close>

lemma dependsOn_of_iff:
  "c \<in> set (dependsOn_of rs) \<longleftrightarrow> (\<exists>rule\<in>set rs. \<exists>deps. crossField rule = Some deps \<and> c \<in> set deps)"
  by (induction rs) (auto simp: dependsOn_of_def split: option.splits)

lemma buildDependencies_loop_dependents:
  "map fst (filter (\<lambda>dep. c \<in> set (snd dep)) (buildDependencies_loop r))
   = map fst (filter (\<lambda>entry. c \<in> set (dependsOn_of (snd entry))) r)"
  by (induction r rule: buildDependencies_loop.induct) (auto simp: Let_def)

lemma setRules_fieldDependencies:
  "fieldDependencies (setRules r f) = buildDependencies_loop r"
  by (simp add: setRules_def clearStaleErrors_def getExpandedRules_def buildDependencies_def
      invalidateExpandedRulesCache_def Let_def split: option.splits prod.splits)

lemma getDependentFields_setRules:
  "getDependentFields c (setRules r f)
   = map fst (filter (\<lambda>entry. \<exists>rule\<in>set (snd entry). \<exists>deps. crossField rule = Some deps \<and> c \<in> set deps) r)"
  by (simp add: getDependentFields_def setRules_fieldDependencies buildDependencies_loop_dependents
      dependsOn_of_iff)

lemma revalidate_miss:
  "cache_miss d (f\<lparr>validationCache := AList.delete d (validationCache f)\<rparr>)"
  by (simp add: cache_miss_def delete_conv')

lemma field_cong:
  assumes "rules g = rules f" and "form_values g = form_values f"
  shows "settlements \<tau> g = settlements \<tau> f" "field_events \<tau> g = field_events \<tau> f"
    "field_errors \<tau> g = field_errors \<tau> f"
proof -
  have "fieldRules_of d g = fieldRules_of d f" for d
    using assms by (rule fieldRules_of_cong)
  moreover have "currentValue_of d g = currentValue_of d f" for d
    using assms(2) by (rule currentValue_of_cong)
  ultimately show "settlements \<tau> g = settlements \<tau> f" "field_events \<tau> g = field_events \<tau> f"
    "field_errors \<tau> g = field_errors \<tau> f"
    using assms by (auto simp: settlements_def field_events_def field_errors_def)
qed

lemma loop_solo:
  assumes "controllers_below g" and "distinct ds"
    and "\<forall>d\<in>set ds. map_of t d = Some True \<longrightarrow> length (\<tau> d) = length (fieldRules_of d g)"
  shows "revalidated \<tau> g (filter (\<lambda>d. map_of t d = Some True) ds)
           (validateDependentFields_loop ds t (settlements \<tau> g) g)"
  using assms
proof (induction ds arbitrary: g)
  case Nil
  then show ?case by (simp add: revalidated_def)
next
  case (Cons d ds)
  let ?T = "filter (\<lambda>d. map_of t d = Some True) ds"
  show ?case
  proof (cases "map_of t d = Some True")
    case False
    have "revalidated \<tau> g ?T (validateDependentFields_loop ds t (settlements \<tau> g) g)"
      using Cons.prems by (intro Cons.IH) simp_all
    then show ?thesis using False by simp
  next
    case True
    define g1 where "g1 = g\<lparr>validationCache := AList.delete d (validationCache g)\<rparr>"
    define x where "x = drive (settlements \<tau> g d) (validateField d g1)"
    have g1: "rules g1 = rules g" "form_values g1 = form_values g" "trace g1 = trace g"
      "errors g1 = errors g" "heap_alloc g1 = heap_alloc g"
      by (simp_all add: g1_def)
    have d1: "fieldRules_of d g1 = fieldRules_of d g" "currentValue_of d g1 = currentValue_of d g"
      using fieldRules_of_cong [OF g1(1,2)] currentValue_of_cong [OF g1(2)] by simp_all
    have miss: "cache_miss d g1" unfolding g1_def by (rule revalidate_miss)
    have below1: "controllers_below g1" using Cons.prems(1) by (simp add: g1_def controllers_below_cache)
    then have fresh: "fresh_controller g1" by (rule controllers_below_fresh)
    have len: "length (\<tau> d) = length (fieldRules_of d g1)" using Cons.prems(3) True d1 by simp
    have xeq: "x = drive (settles_for (fieldRules_of d g1) (\<tau> d) (currentValue_of d g1) (form_values g1))
                    (validateField d g1)"
      by (simp add: x_def settlements_def d1 g1)
    have solo: "snd x = Done (field_errors \<tau> g d)"
      "map_of (errors (fst x)) d = Some (field_errors \<tau> g d)"
      "trace (fst x) = trace g @ field_events \<tau> g d"
      "kept_elsewhere d g1 (fst x)"
      "fieldRules_of d g \<noteq> [] \<Longrightarrow> map_of (validationCache (fst x)) d
           = Some \<lparr>snap_value = deepClone (heap_alloc g) (currentValue_of d g),
                    snap_errors = field_errors \<tau> g d\<rparr>"
      using validateField_solo [OF miss fresh len] unfolding xeq [symmetric]
      by (simp_all add: field_errors_def field_events_def d1 g1)
    define g2 where "g2 = fst x"
    have x: "x = (g2, Done (field_errors \<tau> g d))" using solo(1) by (cases x) (simp add: g2_def)
    have g2: "rules g2 = rules g" "form_values g2 = form_values g" "heap_alloc g2 = heap_alloc g"
      using solo(4) g1 by (simp_all add: kept_elsewhere_def g2_def)
    have below2: "controllers_below g2"
      unfolding g2_def x_def using below1 by (rule controllers_below_solo)
    have cong: "settlements \<tau> g2 = settlements \<tau> g" "field_events \<tau> g2 = field_events \<tau> g"
      "field_errors \<tau> g2 = field_errors \<tau> g"
      using field_cong [OF g2(1,2)] by simp_all
    have r2: "fieldRules_of k g2 = fieldRules_of k g" "currentValue_of k g2 = currentValue_of k g" for k
      using fieldRules_of_cong [OF g2(1,2)] currentValue_of_cong [OF g2(2)] by simp_all
    have step: "validateDependentFields_loop (d # ds) t (settlements \<tau> g) g
        = validateDependentFields_loop ds t (settlements \<tau> g) g2"
      using True x by (simp add: g1_def [symmetric] x_def [symmetric])
    have ih: "revalidated \<tau> g2 ?T (validateDependentFields_loop ds t (settlements \<tau> g2) g2)"
      using Cons.prems below2 by (intro Cons.IH) (simp_all add: r2)
    have dnot: "d \<notin> set ?T" using Cons.prems(2) by simp
    have else1: "map_of (errors g2) k = map_of (errors g) k
        \<and> map_of (validationCache g2) k = map_of (validationCache g) k" if "k \<noteq> d" for k
      using solo(4) that by (simp add: kept_elsewhere_def g2_def g1_def delete_conv')
    have tr2: "trace g2 = trace g @ field_events \<tau> g d" using solo(3) by (simp add: g2_def)
    have e2: "map_of (errors g2) d = Some (field_errors \<tau> g d)" using solo(2) by (simp add: g2_def)
    have c2: "fieldRules_of d g \<noteq> [] \<Longrightarrow> map_of (validationCache g2) d
           = Some \<lparr>snap_value = deepClone (heap_alloc g) (currentValue_of d g),
                    snap_errors = field_errors \<tau> g d\<rparr>"
      using solo(5) by (simp add: g2_def)
    show ?thesis
      unfolding step using ih dnot else1 tr2 e2 c2 True g2
      unfolding cong revalidated_def r2 by auto
  qed
qed

text \<open>
  C6. After \<open>setRules(r)\<close>, \<open>getDependentFields(c)\<close> is the list of the fields of \<open>r\<close>, in
  order, that have a rule whose \<open>dependsOn\<close> names \<open>c\<close> itself: one hop, nothing
  transitive. \<open>validateDependentFields(c, touched)\<close>, each validation being awaited to
  its end with the settlements \<open>\<tau>\<close> (one per rule), completes, and what it has done is
  this: for the touched dependents \<open>T\<close>, in order, the chain of the field has been run
  again from its first rule, whatever the cache held before (the trace has grown by
  the call of \<open>validateField\<close> and the calls of the rules, up to the first that does not
  pass), the errors of the field are those of this run, and so is its cache entry; the
  errors and the cache entry of every other field, the untouched dependents included,
  are what they were, and no other field has been validated.
\<close>

theorem getDependentFields_direct_and_revalidated:
  fixes t :: "(string \<times> bool) list" and c :: string and f :: form
    and \<tau> :: "string \<Rightarrow> settle list"
  defines "T \<equiv> filter (\<lambda>d. map_of t d = Some True) (getDependentFields c f)"
  defines "res \<equiv> validateDependentFields c t (settlements \<tau> f) f"
  assumes below: "controllers_below f" and keys: "distinct (map fst (fieldDependencies f))"
    and aligned: "\<forall>d\<in>set T. length (\<tau> d) = length (fieldRules_of d f)"
  shows "getDependentFields c (setRules r g)
           = map fst (filter (\<lambda>entry. \<exists>rule\<in>set (snd entry). \<exists>deps.
                                  crossField rule = Some deps \<and> c \<in> set deps) r)
       \<and> snd res = Some (Inr ())
       \<and> trace (fst res) = trace f @ concat (map (field_events \<tau> f) T)
       \<and> (\<forall>d\<in>set T.
            map_of (errors (fst res)) d = Some (field_errors \<tau> f d)
            \<and> (fieldRules_of d f \<noteq> [] \<longrightarrow>
                 map_of (validationCache (fst res)) d
                   = Some \<lparr>snap_value = deepClone (heap_alloc f) (currentValue_of d f),
                            snap_errors = field_errors \<tau> f d\<rparr>))
       \<and> (\<forall>k. k \<notin> set T \<longrightarrow>
            map_of (errors (fst res)) k = map_of (errors f) k
            \<and> map_of (validationCache (fst res)) k = map_of (validationCache f) k)"
proof -
  have "\<forall>d\<in>set (getDependentFields c f).
          map_of t d = Some True \<longrightarrow> length (\<tau> d) = length (fieldRules_of d f)"
    using aligned by (simp add: T_def)
  moreover have "distinct (getDependentFields c f)"
    unfolding getDependentFields_def using keys by (rule distinct_map_filter)
  ultimately have "revalidated \<tau> f T res"
    unfolding T_def res_def validateDependentFields_def
    using below by (intro loop_solo)
  then show ?thesis
    using getDependentFields_setRules [of c r g] by (simp add: revalidated_def)
qed

lemmas registration_eval =
  registration_def registration_start_def registration_rules_def sameAs_def
  form_eval path_eval run_eval get_prop_def

theorem getDependentFields_direct_and_revalidated_witness:
  "controllers_below registration
   \<and> map fst (fieldDependencies registration) = [''confirm'', ''hint'', ''nickname'']
   \<and> getDependentFields ''password'' registration = [''confirm'', ''hint'']
   \<and> getDependentFields ''password'' (setRules registration_rules registration) = [''confirm'', ''hint'']
   \<and> map_of (validationCache registration) ''confirm''
       = Some \<lparr>snap_value = JStr ''abc'', snap_errors = []\<rparr>
   \<and> \<not> cache_miss ''confirm'' registration
   \<and> snd (validateDependentFields ''password'' [(''confirm'', True), (''hint'', False)]
          (settlements registration_settlements registration) registration) = Some (Inr ())
   \<and> trace (fst (validateDependentFields ''password'' [(''confirm'', True), (''hint'', False)]
          (settlements registration_settlements registration) registration))
       = trace registration
           @ [Invoked ''confirm'', RuleCall ''confirm'' 1, RuleCall ''confirm'' 2]
   \<and> map_of (errors (fst (validateDependentFields ''password'' [(''confirm'', True), (''hint'', False)]
          (settlements registration_settlements registration) registration))) ''confirm''
       = Some [''Passwords differ'']
   \<and> map_of (validationCache (fst (validateDependentFields ''password'' [(''confirm'', True), (''hint'', False)]
          (settlements registration_settlements registration) registration))) ''confirm''
       = Some \<lparr>snap_value = JStr ''abc'', snap_errors = [''Passwords differ'']\<rparr>
   \<and> map_of (errors (fst (validateDependentFields ''password'' [(''confirm'', True), (''hint'', False)]
          (settlements registration_settlements registration) registration))) ''hint''
       = map_of (errors registration) ''hint''
   \<and> map_of (validationCache (fst (validateDependentFields ''password'' [(''confirm'', True), (''hint'', False)]
          (settlements registration_settlements registration) registration))) ''hint''
       = map_of (validationCache registration) ''hint''"
proof -
  let ?t = "[(''confirm'', True), (''hint'', False)]"
  have 1: "controllers_below registration"
    by (simp add: controllers_below_def registration_eval)
  have 2: "getDependentFields ''password'' registration = [''confirm'', ''hint'']"
    by (simp add: getDependentFields_def registration_eval requiredIf_def dependsOn_of_def)
  have 3: "fieldRules_of ''confirm'' registration = [required 1 ''Confirm'', sameAs 2 ''password'']"
    by (simp add: registration_eval)
  have 4: "currentValue_of ''confirm'' registration = JStr ''abc''"
    "form_values registration = JObj 0 [(''password'', JStr ''xyz''), (''confirm'', JStr ''abc''),
         (''hint'', JStr []), (''nickname'', JStr [])]"
    "heap_alloc registration = Suc"
    by (simp_all add: registration_eval)
  have k: "map fst (fieldDependencies registration) = [''confirm'', ''hint'', ''nickname'']"
    by (simp add: registration_eval requiredIf_def dependsOn_of_def)
  have 5: "distinct (map fst (fieldDependencies registration))" by (simp add: k)
  have 6: "\<forall>d\<in>set (filter (\<lambda>d. map_of ?t d = Some True) (getDependentFields ''password'' registration)).
            length (registration_settlements d) = length (fieldRules_of d registration)"
    by (simp add: 2 3 registration_settlements_def)
  have 7: "field_events registration_settlements registration ''confirm''
      = [Invoked ''confirm'', RuleCall ''confirm'' 1, RuleCall ''confirm'' 2]"
    "field_errors registration_settlements registration ''confirm'' = [''Passwords differ'']"
    unfolding field_events_def field_errors_def 3 4 registration_settlements_def
    by (simp_all add: sameAs_def required_def awaited_def passes_def verdict_def
        resolveValidationResult_def)
  have 8: "map_of (validationCache registration) ''confirm''
       = Some \<lparr>snap_value = JStr ''abc'', snap_errors = []\<rparr>"
    by (simp add: registration_eval)
  have 9: "\<not> cache_miss ''confirm'' registration"
    by (simp add: cache_miss_def 8 4 deepEqual.simps)
  have 10: "map fst (filter (\<lambda>entry. \<exists>rule\<in>set (snd entry). \<exists>deps.
                crossField rule = Some deps \<and> ''password'' \<in> set deps) registration_rules)
      = [''confirm'', ''hint'']"
    by (simp add: registration_rules_def sameAs_def requiredIf_def required_def)
  show ?thesis
    using getDependentFields_direct_and_revalidated
      [OF 1 5 6, of registration_rules registration] 1 8 9 k
    unfolding 2 10 by (simp add: 3 4 7)
qed


section \<open>Whole-form validity\<close>



text \<open>The probe calls the rule synchronously; \<open>requiredIf\<close> of the library answers with a
  promise, so a field whose only rule is \<open>requiredIf\<close> is never found inactive.\<close>

lemma requiredIf_never_inactive:
  "map_of (state_rules f) key = Some [requiredIf i c] \<Longrightarrow> \<not> isConditionallyInactive key f"
  by (simp add: isConditionallyInactive_def requiredIf_def)




text \<open>A thenable that is not a \<open>Promise\<close> leaves the decision to the next rule.\<close>

lemma probe_rules_other_thenable:
  "crossField rule = Some deps \<Longrightarrow> run rule (JStr []) testValues = Thenable OtherThenable
   \<Longrightarrow> probe_rules (rule # rest) testValues = probe_rules rest testValues"
  by simp





section \<open>Touched fields after validateForm\<close>

lemma mark_touched_lookup:
  "map_of (mark_touched ks t) k = (if k \<in> set ks then Some True else map_of t k)"
  unfolding mark_touched_def by (induction ks arbitrary: t) (auto simp: update_conv')

lemma validateForm_marks_expanded:
  "fst (validateForm (Some t) evs f)
     = Some (mark_touched (map fst (expandWildcardPaths (rules f) (form_values f))) t)"
  by (simp add: validateForm_def getExpandedRules_def invalidateExpandedRulesCache_def Let_def
      split: prod.splits option.splits sum.splits)

text \<open>
  C9. \<open>validateForm(touched)\<close> of the validation manager, called with the \<open>touched\<close> object
  of the form: when it returns, the object marks exactly the paths of the expansion
  computed from the current rules and values (whatever expansion was cached before) in
  addition to what it marked already. In particular, for a rule path with one wildcard
  segment whose prefix resolves to an array, the concrete path of every index of the
  array is marked, and so is every rule path without \<open>*\<close>.
\<close>

theorem validateForm_marks_expanded_paths:
  fixes t :: "(string \<times> bool) list" and f :: form and evs :: "(nat \<times> settle) list"
  defines "marked \<equiv> map_of (the (fst (validateForm (Some t) evs f)))"
  shows "fst (validateForm (Some t) evs f) \<noteq> None
       \<and> (\<forall>k. marked k
              = (if k \<in> fst ` set (expandWildcardPaths (rules f) (form_values f)) then Some True
                 else map_of t k))
       \<and> (\<forall>path ruleArray pre post r xs i.
            (path, ruleArray) \<in> set (rules f)
            \<and> split_dot path = pre @ ''*'' # post \<and> ''*'' \<notin> set pre \<and> ''*'' \<notin> set post
            \<and> getNestedValue (form_values f) (join_dot pre) = JArr r xs \<and> i < length xs
            \<longrightarrow> marked (join_dot (pre @ show_nat i # post)) = Some True)
       \<and> (\<forall>path ruleArray.
            (path, ruleArray) \<in> set (rules f) \<and> CHR ''*'' \<notin> set path
            \<longrightarrow> marked path = Some True)"
proof -
  let ?e = "expandWildcardPaths (rules f) (form_values f)"
  have m: "marked k = (if k \<in> fst ` set ?e then Some True else map_of t k)" for k
    by (simp add: marked_def validateForm_marks_expanded mark_touched_lookup)
  have keys: "fst ` set ?e = (\<Union>entry\<in>set (rules f). set (expand_path (fst entry) (form_values f)))"
    by (rule expandWildcardPaths_keys)
  have wild: "marked (join_dot (pre @ show_nat i # post)) = Some True"
    if "(path, ruleArray) \<in> set (rules f)"
      and sp: "split_dot path = pre @ ''*'' # post" "''*'' \<notin> set pre" "''*'' \<notin> set post"
      and arr: "getNestedValue (form_values f) (join_dot pre) = JArr r xs" and i: "i < length xs"
    for path ruleArray pre post r xs i
  proof -
    have "expand_path path (form_values f)
        = map (\<lambda>k. join_dot (pre @ show_nat k # post)) [0..<length xs]"
      using expand_path_wildcard [OF sp, of "form_values f"] arr by simp
    then have "join_dot (pre @ show_nat i # post) \<in> set (expand_path path (form_values f))"
      using i by simp
    then have "join_dot (pre @ show_nat i # post) \<in> fst ` set ?e"
      unfolding keys using that(1) by force
    then show ?thesis by (simp add: m)
  qed
  have plain: "marked path = Some True"
    if "(path, ruleArray) \<in> set (rules f)" "CHR ''*'' \<notin> set path" for path ruleArray
  proof -
    have "expand_path path (form_values f) = [path]" using that(2) by (simp add: expand_path_def)
    then have "path \<in> fst ` set ?e" unfolding keys using that(1) by force
    then show ?thesis by (simp add: m)
  qed
  have some: "fst (validateForm (Some t) evs f) \<noteq> None" by (simp add: validateForm_marks_expanded)
  show ?thesis using some m wild plain by blast
qed

theorem validateForm_marks_expanded_paths_witness:
  "expandedRulesCache address_book
       = Some [(''owner'', [required 1 ''Owner'']), (''contacts.0.name'', [required 2 ''Name''])]
   \<and> (''contacts.*.name'', [required 2 ''Name'']) \<in> set (rules address_book)
   \<and> split_dot ''contacts.*.name'' = [''contacts''] @ ''*'' # [''name'']
   \<and> getNestedValue (form_values address_book) (join_dot [''contacts''])
       = JArr 1 [JObj 2 [(''name'', JStr [])], JObj 3 [(''name'', JStr ''Bo'')]]
   \<and> (''owner'', [required 1 ''Owner'']) \<in> set (rules address_book)
   \<and> map_of (the (fst (validateForm (Some [(''owner'', False)]) [] address_book))) ''contacts.0.name''
       = Some True
   \<and> map_of (the (fst (validateForm (Some [(''owner'', False)]) [] address_book))) ''contacts.1.name''
       = Some True
   \<and> map_of (the (fst (validateForm (Some [(''owner'', False)]) [] address_book))) ''owner'' = Some True
   \<and> map_of (the (fst (validateForm (Some [(''owner'', False)]) [] address_book))) ''contacts'' = None"
proof -
  have 1: "expandedRulesCache address_book
       = Some [(''owner'', [required 1 ''Owner'']), (''contacts.0.name'', [required 2 ''Name''])]"
    by (simp add: address_book_def new_form_def path_eval)
  have 2: "(''contacts.*.name'', [required 2 ''Name'']) \<in> set (rules address_book)"
    "(''owner'', [required 1 ''Owner'']) \<in> set (rules address_book)"
    by (simp_all add: address_book_def new_form_def)
  have 3: "split_dot ''contacts.*.name'' = [''contacts''] @ ''*'' # [''name'']" by simp
  have 4: "getNestedValue (form_values address_book) (join_dot [''contacts''])
       = JArr 1 [JObj 2 [(''name'', JStr [])], JObj 3 [(''name'', JStr ''Bo'')]]"
    by (simp add: address_book_def new_form_def path_eval)
  have 5: "fst ` set (expandWildcardPaths (rules address_book) (form_values address_book))
      = {''owner'', ''contacts.0.name'', ''contacts.1.name''}"
    by (simp add: address_book_def new_form_def path_eval)
  note c9 = validateForm_marks_expanded_paths [of "[(''owner'', False)]" "[]" address_book]
  have a: "map_of (the (fst (validateForm (Some [(''owner'', False)]) [] address_book)))
        (join_dot ([''contacts''] @ show_nat i # [''name''])) = Some True" if "i < 2" for i
  proof -
    have "(''contacts.*.name'', [required 2 ''Name'']) \<in> set (rules address_book)
        \<and> split_dot ''contacts.*.name'' = [''contacts''] @ ''*'' # [''name'']
        \<and> ''*'' \<notin> set [''contacts''] \<and> ''*'' \<notin> set [''name'']
        \<and> getNestedValue (form_values address_book) (join_dot [''contacts''])
            = JArr 1 [JObj 2 [(''name'', JStr [])], JObj 3 [(''name'', JStr ''Bo'')]]
        \<and> i < length [JObj 2 [(''name'', JStr [])], JObj 3 [(''name'', JStr ''Bo'')]]"
      using 2 3 4 that by simp
    then show ?thesis
      by (rule c9 [THEN conjunct2, THEN conjunct2, THEN conjunct1, rule_format])
  qed
  have b: "map_of (the (fst (validateForm (Some [(''owner'', False)]) [] address_book))) ''owner''
      = Some True"
  proof -
    have "(''owner'', [required 1 ''Owner'']) \<in> set (rules address_book) \<and> CHR ''*'' \<notin> set ''owner''"
      using 2 by simp
    then show ?thesis
      by (rule c9 [THEN conjunct2, THEN conjunct2, THEN conjunct2, rule_format])
  qed
  have c: "map_of (the (fst (validateForm (Some [(''owner'', False)]) [] address_book))) ''contacts''
      = None"
    using c9 [THEN conjunct2, THEN conjunct1, rule_format, of "''contacts''"] unfolding 5 by simp
  show ?thesis using 1 2 3 4 a [of 0] a [of 1] b c by (simp add: show_nat.simps digit_char_def)
qed


section \<open>Superseded invocations\<close>

text \<open>
  A second call of \<open>validateField\<close> for a field aborts the controller that is registered
  for it. A superseded invocation whose awaited promise is fulfilled commits nothing: it
  returns the empty list and leaves the errors and the cache as they are.
\<close>

lemma superseded_fulfilled_commits_nothing:
  assumes "abortController fr \<in> aborted f"
  shows "snd (validateField_resume fr (Fulfilled x) f) = Done []"
    and "errors (fst (validateField_resume fr (Fulfilled x) f)) = errors f"
    and "validationCache (fst (validateField_resume fr (Fulfilled x) f)) = validationCache f"
  using assms by (simp_all add: validateField_resume_def)

lemma aborted_run_chain: "aborted (fst (run_chain fr rs f)) = aborted f"
proof (induction rs arbitrary: f)
  case Nil
  then show ?case by simp
next
  case (Cons r rs)
  show ?case
    by (cases "run r (currentValue fr) (form_values f)") (simp_all add: Let_def Cons)
qed

lemma validateField_aborts_previous:
  assumes "map_of (abortControllers f) p = Some c"
  shows "c \<in> aborted (fst (validateField p f))"
proof -
  have "c \<in> aborted (registered p f)"
    using assms by (simp add: registered_def)
  then show ?thesis
    by (simp add: validateField_unfold aborted_run_chain)
qed

text \<open>
  C1 at the race of the scenario: invocation A is superseded by B, and B has committed an
  empty error list for the new value. When the promise awaited by A is then rejected, A
  does not return the empty list: it writes its message to the error store and a cache
  entry for the old value, over the result of B.
\<close>

theorem superseded_rejection_commits:
  "superseded (snd race_A) (fst race_B_done)
   \<and> snd race_B_done = Done []
   \<and> map_of (errors (fst race_B_done)) ''username'' = Some []
   \<and> snd race_A_late = Done [''Network error'']
   \<and> map_of (errors (fst race_A_late)) ''username'' = Some [''Network error'']
   \<and> map_of (validationCache (fst race_A_late)) ''username''
       = Some \<lparr>snap_value = JStr ''bob'', snap_errors = [''Network error'']\<rparr>
   \<and> currentValue_of ''username'' (fst race_A_late) = JStr ''bobby''"
  by (simp add: race_A_late_def race_B_done_def race_B_def race_A_def lookup_form_def resume_in_def
      superseded_def form_eval path_eval run_eval get_prop_def)

section \<open>The debounce adapter\<close>

lemmas debounce_eval = debounce_run_def debounce_def settle_promise_def Let_def

text \<open>
  Two calls within one delay window: the first promise is rejected as superseded, its
  timer is cleared, and the checker runs once, for the second call. In general a call
  supersedes the pending one properly whenever \<open>timeoutId\<close> still names the timer of
  that pending call.
\<close>

lemma debounce_supersedes_pending:
  "promises (debounce_run [Call (JStr ''a''), Call (JStr ''ab''), Fire 1, Settle 1 (Fulfilled (JBool True))])
     = [RejectedWith Superseded, Resolved (JBool True)]
   \<and> executed (debounce_run [Call (JStr ''a''), Call (JStr ''ab''), Fire 1, Settle 1 (Fulfilled (JBool True))])
     = [JStr ''ab'']"
  by (simp add: debounce_eval)

lemma debounce_supersedes_when_registered:
  assumes "pendingReject d = Some p" and "timeoutId d = Some p"
    and "p < length (promises d)" and "promises d ! p = Pending"
  shows "promises (debounce_step d (Call a)) ! p = RejectedWith Superseded"
    and "p \<notin> set (scheduled (debounce_step d (Call a)))"
  using assms by (simp_all add: Let_def settle_promise_def nth_append)

text \<open>
  C8 at a run in which a call arrives while the checker is running: the first timer
  fires and the checker starts; a second call sets a new timer; the checker finishes, and
  its \<open>finally\<close> block resets \<open>timeoutId\<close>, which by now names the second timer;
  a third call within the window of the second rejects the second promise as superseded
  but finds no timer to clear. The second timer stays scheduled, and when it fires the
  checker runs for the superseded call.
\<close>

theorem debounce_superseded_timer_survives:
  "promises (debounce_run [Call (JStr ''a''), Fire 0, Call (JStr ''ab''),
       Settle 0 (Fulfilled (JBool True)), Call (JStr ''abc'')])
     = [Resolved (JBool True), RejectedWith Superseded, Pending]
   \<and> scheduled (debounce_run [Call (JStr ''a''), Fire 0, Call (JStr ''ab''),
       Settle 0 (Fulfilled (JBool True)), Call (JStr ''abc'')])
     = [1, 2]
   \<and> executed (debounce_run [Call (JStr ''a''), Fire 0, Call (JStr ''ab''),
       Settle 0 (Fulfilled (JBool True)), Call (JStr ''abc''), Fire 1])
     = [JStr ''a'', JStr ''ab'']"
  by (simp add: debounce_eval)

section \<open>Snapshots and the validation cache\<close>

text \<open>
  C10, as stated: \<open>deepEqual(deepClone(v), v)\<close> for every storable value. It fails for the
  number \<open>NaN\<close>: the clone of a primitive is the primitive, and \<open>NaN === NaN\<close> is false.
\<close>

theorem deepEqual_deepClone_NaN_counterexample:
  "\<not> deepEqual (deepClone Suc (JNum NaN)) (JNum NaN)"
  by (simp add: deepEqual.simps num_eq_def)

text \<open>
  C10, amended: for every well-formed value that holds no \<open>NaN\<close> number, no invalid date
  and no own property named \<open>__proto__\<close>, the snapshot taken by \<open>deepClone\<close> deep-equals
  the value, whatever references the copies receive. So when a completed
  \<open>validateField(p)\<close> has recorded its cache entry for such a value, the cache check of
  \<open>p\<close> hits in every later form that still holds this entry and the same value at \<open>p\<close>.
\<close>

theorem deepEqual_deepClone:
  assumes "wf_val v" and "nan_free v" and "proto_free v"
  shows "deepEqual (deepClone alloc v) v
       \<and> (\<forall>f p ss f1 es g.
            currentValue_of p f = v \<and> fieldRules_of p f \<noteq> [] \<and> fresh_controller f
            \<and> drive ss (validateField p f) = (f1, Done es)
            \<and> map_of (validationCache g) p = map_of (validationCache f1) p
            \<and> currentValue_of p g = v
            \<longrightarrow> \<not> cache_miss p g)"
proof -
  have snap: "deepEqual (deepClone a v) v" for a
    using assms by (rule snapshot_deepEqual)
  have hit: "\<not> cache_miss p g"
    if v: "currentValue_of p f = v" and ne: "fieldRules_of p f \<noteq> []" and fresh: "fresh_controller f"
      and run: "drive ss (validateField p f) = (f1, Done es)"
      and same: "map_of (validationCache g) p = map_of (validationCache f1) p"
      and vg: "currentValue_of p g = v"
    for f p ss f1 es g
  proof (cases "cache_miss p f")
    case True
    then have "drive ss (run_chain (first_frame p f) (fieldRules_of p f) (registered p f)) = (f1, Done es)"
      using run ne fresh by (simp add: validateField_miss)
    then have "committed (first_frame p f) es (registered p f) f1"
      using registered_not_aborted [OF fresh, of p] by (intro run_done_committed) simp_all
    then have "map_of (validationCache g) p
        = Some \<lparr>snap_value = deepClone (heap_alloc f) v, snap_errors = es\<rparr>"
      using same v by (simp add: committed_def)
    then show ?thesis using snap vg by (simp add: cache_miss_def)
  next
    case False
    then obtain c where c: "map_of (validationCache f) p = Some c"
      "deepEqual (snap_value c) v"
      using v by (auto simp: cache_miss_def split: option.splits)
    have "validateField p f =
        (release p (next_controller f)
            ((registered p f)\<lparr>errors := AList.update p (snap_errors c) (errors f)\<rparr>),
         Done (snap_errors c))"
      using False ne c by (simp add: validateField_unfold)
    then have "validationCache f1 = validationCache f" using run by auto
    then show ?thesis using same c vg by (simp add: cache_miss_def)
  qed
  show ?thesis using snap hit by blast
qed

theorem deepEqual_deepClone_witness:
  "wf_val ann \<and> nan_free ann \<and> proto_free ann
   \<and> deepClone Suc ann
       = JObj 2 [(''name'', JStr ''Ann''), (''tags'', JArr 3 [JNum (Fin 1), JDate 4 (Fin 5)])]
   \<and> deepEqual (deepClone Suc ann) ann
   \<and> currentValue_of ''member'' membership = ann
   \<and> fieldRules_of ''member'' membership \<noteq> [] \<and> fresh_controller membership
   \<and> snd (drive [] (validateField ''member'' membership)) = Done []
   \<and> map_of (validationCache (fst (drive [] (validateField ''member'' membership)))) ''member''
       = Some \<lparr>snap_value = deepClone Suc ann, snap_errors = []\<rparr>
   \<and> \<not> cache_miss ''member'' (fst (drive [] (validateField ''member'' membership)))"
proof -
  let ?f1 = "fst (drive [] (validateField ''member'' membership))"
  have 1: "wf_val ann" "nan_free ann" "proto_free ann" by (simp_all add: ann_def)
  have 2: "currentValue_of ''member'' membership = ann"
    by (simp add: membership_def form_eval get_prop_def)
  have 3: "fieldRules_of ''member'' membership \<noteq> []"
    by (simp add: membership_def form_eval path_eval)
  have 4: "fresh_controller membership" by (simp add: membership_def form_eval)
  have 5: "snd (drive [] (validateField ''member'' membership)) = Done []"
    by (simp add: membership_def ann_def form_eval path_eval run_eval get_prop_def)
  have 6: "map_of (validationCache ?f1) ''member''
       = Some \<lparr>snap_value = deepClone Suc ann, snap_errors = []\<rparr>"
    by (simp add: membership_def ann_def form_eval path_eval run_eval get_prop_def)
  have 7: "currentValue_of ''member'' ?f1 = ann"
    by (simp add: membership_def ann_def form_eval path_eval run_eval get_prop_def)
  have 8: "deepClone Suc ann
       = JObj 2 [(''name'', JStr ''Ann''), (''tags'', JArr 3 [JNum (Fin 1), JDate 4 (Fin 5)])]"
    by (simp add: ann_def)
  note c10 = deepEqual_deepClone [OF 1, of Suc]
  have "currentValue_of ''member'' membership = ann \<and> fieldRules_of ''member'' membership \<noteq> []
      \<and> fresh_controller membership
      \<and> drive [] (validateField ''member'' membership) = (?f1, Done [])
      \<and> map_of (validationCache ?f1) ''member'' = map_of (validationCache ?f1) ''member''
      \<and> currentValue_of ''member'' ?f1 = ann"
    using 2 3 4 5 7 by (simp add: prod_eq_iff)
  then have hit: "\<not> cache_miss ''member'' ?f1"
    by (rule c10 [THEN conjunct2, rule_format])
  show ?thesis using 1 2 3 4 5 6 8 hit c10 [THEN conjunct1] by simp
qed

end
